theory Spec2Isabelle
  imports Main "HOL-Library.Sublist"
begin

section \<open>The schema text of \<open>init_database.py\<close>\<close>

text \<open>
  The bootstrap script holds its schema as SQL text. The statements are transcribed
  here as data, clause by clause and in the order of the script: every column with
  its type and attributes, every index, every foreign key. Nothing is added that the
  text does not say.
\<close>

datatype sql_type =
    TInt | TBigInt | TFloat | TBoolean | TText | TJson | TDate | TTimestamp
  | TVarchar nat
  | TEnum "string list"

datatype default_value = DInt int | DStr string | CURRENT_TIMESTAMP

datatype attr =
    PRIMARY_KEY | AUTO_INCREMENT | UNIQUE | NOT_NULL | NULLABLE
  | DEFAULT default_value
  | ON_UPDATE_CURRENT_TIMESTAMP
  | COMMENT string

datatype column = Column string sql_type "attr list"

datatype key_part = Asc string | Desc string | Prefix string nat

datatype index =
    INDEX string "key_part list"
  | FULLTEXT_INDEX string "key_part list"
  | UNIQUE_KEY string "key_part list"

record table_def =
  td_name :: string
  td_columns :: "column list"
  td_indexes :: "index list"

datatype fk_action = SET_NULL | CASCADE

record foreign_key =
  fk_table :: string
  fk_name :: string
  fk_column :: string
  fk_ref_table :: string
  fk_ref_column :: string
  fk_on_delete :: fk_action

subsection \<open>\<open>create_tables\<close>: the six \<open>CREATE TABLE IF NOT EXISTS\<close> statements\<close>

definition search_tasks :: table_def where
  "search_tasks = \<lparr>
     td_name = ''search_tasks'',
     td_columns = [
       Column ''id'' TInt [PRIMARY_KEY, AUTO_INCREMENT],
       Column ''task_id'' (TVarchar 64) [UNIQUE, NOT_NULL, COMMENT ''UUID for task tracking''],
       Column ''keyword'' (TVarchar 255) [NOT_NULL, COMMENT ''Search keyword''],
       Column ''product_info'' TText [COMMENT ''Product information snapshot''],
       Column ''status'' (TEnum [''pending'', ''running'', ''completed'', ''failed'', ''paused''])
         [DEFAULT (DStr ''pending'')],
       Column ''total_channels'' TInt [DEFAULT (DInt 0)],
       Column ''processed_channels'' TInt [DEFAULT (DInt 0)],
       Column ''is_incremental'' TBoolean [DEFAULT (DInt 0)],
       Column ''parent_task_id'' (TVarchar 64) [],
       Column ''new_channels_count'' TInt [DEFAULT (DInt 0)],
       Column ''accelerated_mode'' TBoolean [DEFAULT (DInt 0)],
       Column ''error_message'' TText [],
       Column ''created_at'' TTimestamp [DEFAULT CURRENT_TIMESTAMP],
       Column ''started_at'' TTimestamp [NULLABLE],
       Column ''completed_at'' TTimestamp [NULLABLE]],
     td_indexes = [
       INDEX ''idx_keyword'' [Asc ''keyword''],
       INDEX ''idx_status'' [Asc ''status''],
       INDEX ''idx_created'' [Desc ''created_at''],
       INDEX ''idx_parent'' [Asc ''parent_task_id'']] \<rparr>"

definition channels :: table_def where
  "channels = \<lparr>
     td_name = ''channels'',
     td_columns = [
       Column ''id'' TInt [PRIMARY_KEY, AUTO_INCREMENT],
       Column ''channel_id'' (TVarchar 64) [UNIQUE, NOT_NULL],
       Column ''channel_title'' (TVarchar 255) [NOT_NULL],
       Column ''channel_url'' (TVarchar 512) [NOT_NULL],
       Column ''subscriber_count'' TBigInt [DEFAULT (DInt 0)],
       Column ''description'' TText [],
       Column ''detected_language'' (TVarchar 10) [],
       Column ''language_confidence'' TFloat [],
       Column ''custom_url'' (TVarchar 255) [],
       Column ''thumbnail_url'' (TVarchar 512) [],
       Column ''first_discovered_at'' TTimestamp [NOT_NULL],
       Column ''last_seen_at'' TTimestamp [NOT_NULL],
       Column ''status'' (TEnum [''active'', ''disappeared'', ''deleted'', ''private''])
         [DEFAULT (DStr ''active'')],
       Column ''created_at'' TTimestamp [DEFAULT CURRENT_TIMESTAMP],
       Column ''updated_at'' TTimestamp [DEFAULT CURRENT_TIMESTAMP, ON_UPDATE_CURRENT_TIMESTAMP]],
     td_indexes = [
       INDEX ''idx_channel_id'' [Asc ''channel_id''],
       INDEX ''idx_language'' [Asc ''detected_language''],
       INDEX ''idx_subscribers'' [Desc ''subscriber_count''],
       INDEX ''idx_status'' [Asc ''status''],
       INDEX ''idx_last_seen'' [Desc ''last_seen_at''],
       FULLTEXT_INDEX ''ft_title_desc'' [Asc ''channel_title'', Asc ''description'']] \<rparr>"

definition channel_video_stats :: table_def where
  "channel_video_stats = \<lparr>
     td_name = ''channel_video_stats'',
     td_columns = [
       Column ''id'' TInt [PRIMARY_KEY, AUTO_INCREMENT],
       Column ''channel_id'' (TVarchar 64) [NOT_NULL],
       Column ''task_id'' (TVarchar 64) [NOT_NULL],
       Column ''avg_view_count'' TBigInt [DEFAULT (DInt 0)],
       Column ''avg_like_count'' TInt [DEFAULT (DInt 0)],
       Column ''avg_comment_count'' TInt [DEFAULT (DInt 0)],
       Column ''avg_engagement_rate'' TFloat [DEFAULT (DInt 0)],
       Column ''has_outliers'' TBoolean [DEFAULT (DInt 0)],
       Column ''outlier_videos'' TJson [],
       Column ''recent_videos'' TJson [NOT_NULL],
       Column ''video_languages'' TJson [],
       Column ''created_at'' TTimestamp [DEFAULT CURRENT_TIMESTAMP]],
     td_indexes = [
       INDEX ''idx_channel_task'' [Asc ''channel_id'', Asc ''task_id''],
       INDEX ''idx_engagement'' [Desc ''avg_engagement_rate''],
       INDEX ''idx_views'' [Desc ''avg_view_count'']] \<rparr>"

definition ai_analysis :: table_def where
  "ai_analysis = \<lparr>
     td_name = ''ai_analysis'',
     td_columns = [
       Column ''id'' TInt [PRIMARY_KEY, AUTO_INCREMENT],
       Column ''channel_id'' (TVarchar 64) [NOT_NULL],
       Column ''task_id'' (TVarchar 64) [NOT_NULL],
       Column ''relevance_score'' TInt [],
       Column ''audience_match'' TText [],
       Column ''content_alignment'' TText [],
       Column ''recommendation'' TText [],
       Column ''key_strengths'' TJson [],
       Column ''concerns'' TJson [],
       Column ''analysis_detail'' TJson [NOT_NULL],
       Column ''ai_provider'' (TVarchar 20) [],
       Column ''analysis_status'' (TEnum [''pending'', ''processing'', ''completed'', ''failed''])
         [DEFAULT (DStr ''pending'')],
       Column ''error_message'' TText [],
       Column ''analyzed_at'' TTimestamp [NULLABLE],
       Column ''created_at'' TTimestamp [DEFAULT CURRENT_TIMESTAMP]],
     td_indexes = [
       INDEX ''idx_channel_task'' [Asc ''channel_id'', Asc ''task_id''],
       INDEX ''idx_score'' [Desc ''relevance_score''],
       INDEX ''idx_status'' [Asc ''analysis_status''],
       INDEX ''idx_provider'' [Asc ''ai_provider''],
       UNIQUE_KEY ''uk_channel_task'' [Asc ''channel_id'', Asc ''task_id'']] \<rparr>"

definition api_keys :: table_def where
  "api_keys = \<lparr>
     td_name = ''api_keys'',
     td_columns = [
       Column ''id'' TInt [PRIMARY_KEY, AUTO_INCREMENT],
       Column ''api_key'' (TVarchar 512) [NOT_NULL],
       Column ''api_type'' (TEnum [''youtube'', ''deepseek'', ''zhipu'']) [NOT_NULL],
       Column ''display_name'' (TVarchar 100) [],
       Column ''daily_quota'' TInt [DEFAULT (DInt 10000)],
       Column ''used_quota'' TInt [DEFAULT (DInt 0)],
       Column ''last_reset_date'' TDate [],
       Column ''is_active'' TBoolean [DEFAULT (DInt 1)],
       Column ''priority'' TInt [DEFAULT (DInt 0)],
       Column ''notes'' TText [],
       Column ''created_at'' TTimestamp [DEFAULT CURRENT_TIMESTAMP],
       Column ''updated_at'' TTimestamp [DEFAULT CURRENT_TIMESTAMP, ON_UPDATE_CURRENT_TIMESTAMP]],
     td_indexes = [
       INDEX ''idx_type_active'' [Asc ''api_type'', Asc ''is_active''],
       INDEX ''idx_quota'' [Asc ''used_quota'', Asc ''daily_quota''],
       INDEX ''idx_priority'' [Desc ''priority''],
       UNIQUE_KEY ''uk_api_key'' [Prefix ''api_key'' 255]] \<rparr>"

definition product_config :: table_def where
  "product_config = \<lparr>
     td_name = ''product_config'',
     td_columns = [
       Column ''id'' TInt [PRIMARY_KEY, AUTO_INCREMENT],
       Column ''product_name'' (TVarchar 255) [NOT_NULL],
       Column ''product_url'' (TVarchar 512) [],
       Column ''product_description'' TText [],
       Column ''core_features'' TJson [],
       Column ''target_audience'' TText [],
       Column ''keywords'' TJson [],
       Column ''auto_scraped_content'' TText [],
       Column ''last_scraped_at'' TTimestamp [NULLABLE],
       Column ''is_active'' TBoolean [DEFAULT (DInt 1)],
       Column ''created_at'' TTimestamp [DEFAULT CURRENT_TIMESTAMP],
       Column ''updated_at'' TTimestamp [DEFAULT CURRENT_TIMESTAMP, ON_UPDATE_CURRENT_TIMESTAMP]],
     td_indexes = [
       INDEX ''idx_active'' [Asc ''is_active''],
       FULLTEXT_INDEX ''ft_description'' [Asc ''product_description'', Asc ''auto_scraped_content'']] \<rparr>"

text \<open>The dictionary \<open>tables\<close> of \<open>create_tables\<close>, in insertion order.\<close>

definition tables :: "(string \<times> table_def) list" where
  "tables = [
     (''search_tasks'', search_tasks),
     (''channels'', channels),
     (''channel_video_stats'', channel_video_stats),
     (''ai_analysis'', ai_analysis),
     (''api_keys'', api_keys),
     (''product_config'', product_config)]"

subsection \<open>\<open>add_foreign_keys\<close>: the five \<open>ALTER TABLE ... ADD CONSTRAINT\<close> statements\<close>

definition constraints :: "foreign_key list" where
  "constraints = [
     \<lparr> fk_table = ''search_tasks'', fk_name = ''fk_parent_task'',
       fk_column = ''parent_task_id'', fk_ref_table = ''search_tasks'',
       fk_ref_column = ''task_id'', fk_on_delete = SET_NULL \<rparr>,
     \<lparr> fk_table = ''channel_video_stats'', fk_name = ''fk_stats_channel'',
       fk_column = ''channel_id'', fk_ref_table = ''channels'',
       fk_ref_column = ''channel_id'', fk_on_delete = CASCADE \<rparr>,
     \<lparr> fk_table = ''channel_video_stats'', fk_name = ''fk_stats_task'',
       fk_column = ''task_id'', fk_ref_table = ''search_tasks'',
       fk_ref_column = ''task_id'', fk_on_delete = CASCADE \<rparr>,
     \<lparr> fk_table = ''ai_analysis'', fk_name = ''fk_analysis_channel'',
       fk_column = ''channel_id'', fk_ref_table = ''channels'',
       fk_ref_column = ''channel_id'', fk_on_delete = CASCADE \<rparr>,
     \<lparr> fk_table = ''ai_analysis'', fk_name = ''fk_analysis_task'',
       fk_column = ''task_id'', fk_ref_table = ''search_tasks'',
       fk_ref_column = ''task_id'', fk_on_delete = CASCADE \<rparr>]"

subsection \<open>\<open>create_schema_version_table\<close>: the migration ledger\<close>

definition schema_migrations :: table_def where
  "schema_migrations = \<lparr>
     td_name = ''schema_migrations'',
     td_columns = [
       Column ''version'' TInt [PRIMARY_KEY],
       Column ''description'' (TVarchar 255) [],
       Column ''applied_at'' TTimestamp [DEFAULT CURRENT_TIMESTAMP]],
     td_indexes = [] \<rparr>"

subsection \<open>Reading a table definition\<close>

fun col_name :: "column \<Rightarrow> string" where
  "col_name (Column n ty as) = n"

fun col_type :: "column \<Rightarrow> sql_type" where
  "col_type (Column n ty as) = ty"

fun col_attrs :: "column \<Rightarrow> attr list" where
  "col_attrs (Column n ty as) = as"

definition find_column :: "table_def \<Rightarrow> string \<Rightarrow> column option" where
  "find_column td c = find (\<lambda>k. col_name k = c) (td_columns td)"

text \<open>The values an \<open>ENUM\<close> column lists; \<open>None\<close> for a column that is absent or of another type.\<close>

definition enum_values :: "table_def \<Rightarrow> string \<Rightarrow> string list option" where
  "enum_values td c =
     (case find_column td c of
        Some (Column n (TEnum vs) as) \<Rightarrow> Some vs
      | _ \<Rightarrow> None)"

section \<open>The MySQL server, as far as the script's statements reach\<close>

text \<open>
  The script runs no logic of its own on the data: what its statements mean is decided
  by the server. The model below gives the statements their MySQL (InnoDB) meaning for
  the clauses the schema uses: \<open>IF NOT EXISTS\<close>, \<open>PRIMARY KEY\<close>, \<open>UNIQUE\<close>,
  \<open>NOT NULL\<close>, \<open>DEFAULT\<close>, \<open>AUTO_INCREMENT\<close>, \<open>ON UPDATE CURRENT_TIMESTAMP\<close>,
  \<open>INSERT IGNORE\<close>, \<open>ON DUPLICATE KEY UPDATE\<close>, and \<open>ON DELETE SET NULL\<close> and
  \<open>ON DELETE CASCADE\<close>. Plain \<open>INSERT\<close>, \<open>UPDATE\<close> and \<open>DELETE\<close> are included
  because the schema's keys and referential actions show only under them.

  Not modelled: domain checks of column types (length of a \<open>VARCHAR\<close>, membership in
  an \<open>ENUM\<close>, integer ranges, well-formed \<open>JSON\<close>), the check on \<open>INSERT\<close> and
  \<open>UPDATE\<close> that a child row's reference exists, and collations (two keys are equal
  when their values are, where the server's \<open>utf8mb4_unicode_ci\<close> also equates
  letters of different case). An \<open>UPDATE\<close> is checked against its keys on the rows
  it leaves, not row by row. Under \<open>IGNORE\<close> a row with a \<open>NULL\<close> in a
  \<open>NOT NULL\<close> column is dropped, where the server would store the column type's
  implicit default. A refused \<open>INSERT\<close> leaves the \<open>AUTO_INCREMENT\<close> counter,
  which the server advances. So the model accepts every row the server accepts and
  some it refuses: what holds in every state of the model holds in every state of the
  server, and a statement the model refuses for a key the server refuses too. Where a
  theorem below concludes that a statement is accepted, its hypotheses say that the
  referenced rows exist and name the values inserted, so that the server accepts the
  statement as well.
\<close>

datatype val = VNull | VInt int | VStr string | VTime nat

type_synonym row = "string \<Rightarrow> val"

record table_state =
  t_def :: table_def
  t_rows :: "row list"
  t_auto_increment :: int

record database_state =
  db_tables :: "string \<rightharpoonup> table_state"
  db_fks :: "foreign_key list"

type_synonym server_state = "string \<rightharpoonup> database_state"

text \<open>A \<open>mysql.connector.Error\<close>; the script reads nothing of it but \<open>str(e)\<close>.\<close>

datatype error = Error (str: string)

datatype expr = Lit val | Now

datatype on_duplicate = FAIL | IGNORE | ON_DUPLICATE_KEY_UPDATE "(string \<times> expr) list"

datatype statement =
    CREATE_DATABASE_IF_NOT_EXISTS string
  | CREATE_TABLE_IF_NOT_EXISTS table_def
  | ALTER_TABLE_ADD_FOREIGN_KEY foreign_key
  | INSERT on_duplicate string "(string \<times> val) list list"
  | UPDATE string "(string \<times> expr) list" string val
  | DELETE string string val
  | COMMIT
  | USE string

subsection \<open>Columns and keys\<close>

definition has_attr :: "column \<Rightarrow> attr \<Rightarrow> bool" where
  "has_attr c a = (a \<in> set (col_attrs c))"

definition not_null :: "column \<Rightarrow> bool" where
  "not_null c = (has_attr c NOT_NULL \<or> has_attr c PRIMARY_KEY)"

fun default_of :: "attr list \<Rightarrow> default_value option" where
  "default_of [] = None"
| "default_of (DEFAULT d # as) = Some d"
| "default_of (a # as) = default_of as"

fun eval_default :: "nat \<Rightarrow> default_value \<Rightarrow> val" where
  "eval_default now (DInt i) = VInt i"
| "eval_default now (DStr s) = VStr s"
| "eval_default now CURRENT_TIMESTAMP = VTime now"

fun eval_expr :: "nat \<Rightarrow> expr \<Rightarrow> val" where
  "eval_expr now (Lit v) = v"
| "eval_expr now Now = VTime now"

fun column_keys :: "column list \<Rightarrow> key_part list list" where
  "column_keys [] = []"
| "column_keys (c # cs) =
     (if has_attr c PRIMARY_KEY \<or> has_attr c UNIQUE
      then [Asc (col_name c)] # column_keys cs else column_keys cs)"

fun index_keys :: "index list \<Rightarrow> key_part list list" where
  "index_keys [] = []"
| "index_keys (UNIQUE_KEY n ps # is) = ps # index_keys is"
| "index_keys (i # is) = index_keys is"

text \<open>The keys the server enforces: the primary key, \<open>UNIQUE\<close> columns, \<open>UNIQUE KEY\<close> clauses.\<close>

definition unique_keys :: "table_def \<Rightarrow> key_part list list" where
  "unique_keys td = column_keys (td_columns td) @ index_keys (td_indexes td)"

fun part_val :: "row \<Rightarrow> key_part \<Rightarrow> val" where
  "part_val r (Asc c) = r c"
| "part_val r (Desc c) = r c"
| "part_val r (Prefix c n) = (case r c of VStr s \<Rightarrow> VStr (take n s) | v \<Rightarrow> v)"

definition key_of :: "key_part list \<Rightarrow> row \<Rightarrow> val list" where
  "key_of ps r = map (part_val r) ps"

text \<open>Two rows collide on a key when their key values agree and hold no \<open>NULL\<close>.\<close>

definition same_key :: "key_part list \<Rightarrow> row \<Rightarrow> row \<Rightarrow> bool" where
  "same_key ps r r' = (VNull \<notin> set (key_of ps r) \<and> key_of ps r = key_of ps r')"

definition collides :: "table_def \<Rightarrow> row \<Rightarrow> row \<Rightarrow> bool" where
  "collides td r r' = list_ex (\<lambda>ps. same_key ps r r') (unique_keys td)"

definition key_ok :: "row list \<Rightarrow> key_part list \<Rightarrow> bool" where
  "key_ok rows ps = distinct (filter (\<lambda>k. VNull \<notin> set k) (map (key_of ps) rows))"

definition keys_ok :: "table_def \<Rightarrow> row list \<Rightarrow> bool" where
  "keys_ok td rows = list_all (key_ok rows) (unique_keys td)"

definition row_ok :: "table_def \<Rightarrow> row \<Rightarrow> bool" where
  "row_ok td r = list_all (\<lambda>c. \<not> not_null c \<or> r (col_name c) \<noteq> VNull) (td_columns td)"

subsection \<open>\<open>INSERT\<close>\<close>

definition generated :: "val option \<Rightarrow> bool" where
  "generated v = (v = None \<or> v = Some VNull \<or> v = Some (VInt 0))"

text \<open>
  The stored row: a given value, else the next \<open>AUTO_INCREMENT\<close> value, else the
  \<open>DEFAULT\<close>, else \<open>NULL\<close>.
\<close>

definition new_row :: "nat \<Rightarrow> table_state \<Rightarrow> (string \<times> val) list \<Rightarrow> row" where
  "new_row now t given = (\<lambda>c.
     case find_column (t_def t) c of
       None \<Rightarrow> VNull
     | Some col \<Rightarrow>
         if has_attr col AUTO_INCREMENT \<and> generated (map_of given c)
         then VInt (t_auto_increment t)
         else (case map_of given c of
                 Some v \<Rightarrow> v
               | None \<Rightarrow> (case default_of (col_attrs col) of
                             Some d \<Rightarrow> eval_default now d
                           | None \<Rightarrow> VNull)))"

fun next_auto_increment :: "table_state \<Rightarrow> row \<Rightarrow> int" where
  "next_auto_increment t r =
     (case find (\<lambda>c. has_attr c AUTO_INCREMENT) (td_columns (t_def t)) of
        None \<Rightarrow> t_auto_increment t
      | Some col \<Rightarrow>
          (case r (col_name col) of
             VInt i \<Rightarrow> max (t_auto_increment t) (i + 1)
           | _ \<Rightarrow> t_auto_increment t))"

fun assign :: "nat \<Rightarrow> (string \<times> expr) list \<Rightarrow> row \<Rightarrow> row" where
  "assign now [] r = r"
| "assign now ((c, e) # as) r = assign now as (r(c := eval_expr now e))"

fun stamp :: "nat \<Rightarrow> (string \<times> expr) list \<Rightarrow> column list \<Rightarrow> row \<Rightarrow> row" where
  "stamp now as [] r = r"
| "stamp now as (c # cs) r =
     stamp now as cs
       (if has_attr c ON_UPDATE_CURRENT_TIMESTAMP \<and> col_name c \<notin> fst ` set as
        then r(col_name c := VTime now) else r)"

text \<open>
  An assignment list applied to a stored row. A column declared
  \<open>ON UPDATE CURRENT_TIMESTAMP\<close> and not assigned takes the current time when some
  column of the row changed.
\<close>

definition set_columns :: "nat \<Rightarrow> table_def \<Rightarrow> (string \<times> expr) list \<Rightarrow> row \<Rightarrow> row" where
  "set_columns now td as r =
     (let r' = assign now as r in
      if list_ex (\<lambda>c. r' (col_name c) \<noteq> r (col_name c)) (td_columns td)
      then stamp now as (td_columns td) r' else r')"

fun update_first :: "('a \<Rightarrow> bool) \<Rightarrow> ('a \<Rightarrow> 'a) \<Rightarrow> 'a list \<Rightarrow> 'a list" where
  "update_first P f [] = []"
| "update_first P f (x # xs) = (if P x then f x # xs else x # update_first P f xs)"

definition known_columns :: "table_def \<Rightarrow> string list \<Rightarrow> bool" where
  "known_columns td cs = list_all (\<lambda>c. find_column td c \<noteq> None) cs"

definition insert_row ::
  "nat \<Rightarrow> on_duplicate \<Rightarrow> table_state \<Rightarrow> (string \<times> val) list \<Rightarrow> error + table_state" where
  "insert_row now mode t given =
     (let td = t_def t; r = new_row now t given in
      if \<not> known_columns td (map fst given) then
        Inl (Error ''1054 (42S22): Unknown column in field list'')
      else if \<not> row_ok td r then
        (if mode = IGNORE then Inr t
         else Inl (Error ''1048 (23000): Column cannot be null''))
      else if \<not> list_ex (collides td r) (t_rows t) then
        Inr (t\<lparr>t_rows := t_rows t @ [r], t_auto_increment := next_auto_increment t r\<rparr>)
      else
        (case mode of
           FAIL \<Rightarrow> Inl (Error ''1062 (23000): Duplicate entry for key'')
         | IGNORE \<Rightarrow> Inr t
         | ON_DUPLICATE_KEY_UPDATE as \<Rightarrow>
             (let rows = update_first (collides td r) (set_columns now td as) (t_rows t) in
              if \<not> list_all (row_ok td) rows then
                Inl (Error ''1048 (23000): Column cannot be null'')
              else if \<not> keys_ok td rows then
                Inl (Error ''1062 (23000): Duplicate entry for key'')
              else Inr (t\<lparr>t_rows := rows\<rparr>))))"

text \<open>A statement with several rows inserts them in order; the first error undoes all.\<close>

fun insert_rows ::
  "nat \<Rightarrow> on_duplicate \<Rightarrow> table_state \<Rightarrow> (string \<times> val) list list \<Rightarrow> error + table_state" where
  "insert_rows now mode t [] = Inr t"
| "insert_rows now mode t (g # gs) =
     (case insert_row now mode t g of
        Inl e \<Rightarrow> Inl e
      | Inr t' \<Rightarrow> insert_rows now mode t' gs)"

subsection \<open>\<open>UPDATE\<close> and \<open>DELETE\<close>\<close>

text \<open>\<open>WHERE c = v\<close>: a comparison with \<open>NULL\<close> selects no row.\<close>

definition matches :: "string \<Rightarrow> val \<Rightarrow> row \<Rightarrow> bool" where
  "matches c v r = (v \<noteq> VNull \<and> r c = v)"

definition update_rows ::
  "nat \<Rightarrow> table_state \<Rightarrow> (string \<times> expr) list \<Rightarrow> string \<Rightarrow> val \<Rightarrow> error + table_state" where
  "update_rows now t as c v =
     (let td = t_def t;
          rows = map (\<lambda>r. if matches c v r then set_columns now td as r else r) (t_rows t) in
      if \<not> known_columns td (c # map fst as) then
        Inl (Error ''1054 (42S22): Unknown column in field list'')
      else if \<not> list_all (row_ok td) rows then
        Inl (Error ''1048 (23000): Column cannot be null'')
      else if \<not> keys_ok td rows then
        Inl (Error ''1062 (23000): Duplicate entry for key'')
      else Inr (t\<lparr>t_rows := rows\<rparr>))"

text \<open>A child row refers to a deleted parent row through the foreign key.\<close>

definition refers :: "foreign_key \<Rightarrow> row list \<Rightarrow> row \<Rightarrow> bool" where
  "refers fk dead r =
     (r (fk_column fk) \<noteq> VNull \<and> r (fk_column fk) \<in> set (map (\<lambda>d. d (fk_ref_column fk)) dead))"

definition set_null :: "foreign_key \<Rightarrow> row list \<Rightarrow> row \<Rightarrow> row" where
  "set_null fk dead r = (if refers fk dead r then r(fk_column fk := VNull) else r)"

text \<open>
  The referential actions after the rows \<open>dead\<close> left table \<open>t\<close>. The first list holds
  all foreign keys of the database, the second those still to be looked at for \<open>t\<close>.
  A cascaded delete runs the actions of the child table in turn; the server refuses to
  nest them deeper than 15 levels, which the first argument counts down.
\<close>

fun cascade ::
  "nat \<Rightarrow> foreign_key list \<Rightarrow> foreign_key list \<Rightarrow> string \<Rightarrow> row list
     \<Rightarrow> (string \<rightharpoonup> table_state) \<Rightarrow> error + (string \<rightharpoonup> table_state)" where
  "cascade n all [] t dead tabs = Inr tabs"
| "cascade n all (fk # fks) t dead tabs =
     (if fk_ref_table fk \<noteq> t then cascade n all fks t dead tabs
      else
        (case tabs (fk_table fk) of
           None \<Rightarrow> cascade n all fks t dead tabs
         | Some child \<Rightarrow>
             (case filter (refers fk dead) (t_rows child) of
                [] \<Rightarrow> cascade n all fks t dead tabs
              | h # hs \<Rightarrow>
                  (case fk_on_delete fk of
                     SET_NULL \<Rightarrow>
                       cascade n all fks t dead
                         (tabs(fk_table fk \<mapsto> child\<lparr>t_rows := map (set_null fk dead) (t_rows child)\<rparr>))
                   | CASCADE \<Rightarrow>
                       (case n of
                          0 \<Rightarrow> Inl (Error ''3008 (HY000): Foreign key cascade delete/update exceeds max depth of 15.'')
                        | Suc m \<Rightarrow>
                            (case cascade m all all (fk_table fk) (h # hs)
                                    (tabs(fk_table fk \<mapsto>
                                       child\<lparr>t_rows := filter (\<lambda>r. \<not> refers fk dead r) (t_rows child)\<rparr>)) of
                               Inl e \<Rightarrow> Inl e
                             | Inr tabs' \<Rightarrow> cascade n all fks t dead tabs'))))))"

definition delete_rows :: "database_state \<Rightarrow> string \<Rightarrow> string \<Rightarrow> val \<Rightarrow> error + database_state" where
  "delete_rows db t c v =
     (case db_tables db t of
        None \<Rightarrow> Inl (Error ''1146 (42S02): Table does not exist'')
      | Some tb \<Rightarrow>
          if \<not> known_columns (t_def tb) [c] then
            Inl (Error ''1054 (42S22): Unknown column in where clause'')
          else
            (case cascade 15 (db_fks db) (db_fks db) t (filter (matches c v) (t_rows tb))
                    ((db_tables db)(t \<mapsto> tb\<lparr>t_rows := filter (\<lambda>r. \<not> matches c v r) (t_rows tb)\<rparr>)) of
               Inl e \<Rightarrow> Inl e
             | Inr tabs \<Rightarrow> Inr (db\<lparr>db_tables := tabs\<rparr>)))"

subsection \<open>Data definition statements\<close>

definition create_table :: "database_state \<Rightarrow> table_def \<Rightarrow> database_state" where
  "create_table db td =
     (case db_tables db (td_name td) of
        Some t \<Rightarrow> db
      | None \<Rightarrow> db\<lparr>db_tables := (db_tables db)(td_name td \<mapsto>
                    \<lparr>t_def = td, t_rows = [], t_auto_increment = 1\<rparr>)\<rparr>)"

definition nullable_in :: "table_def \<Rightarrow> string \<Rightarrow> bool" where
  "nullable_in td c =
     (find_column td c \<noteq> None
      \<and> list_all (\<lambda>col. col_name col \<noteq> c \<or> \<not> not_null col) (td_columns td))"

definition add_foreign_key :: "database_state \<Rightarrow> foreign_key \<Rightarrow> error + database_state" where
  "add_foreign_key db fk =
     (case db_tables db (fk_table fk) of
        None \<Rightarrow> Inl (Error ''1146 (42S02): Table does not exist'')
      | Some child \<Rightarrow>
          if fk_name fk \<in> set (map fk_name (db_fks db)) then
            Inl (Error (''1826 (HY000): Duplicate foreign key constraint name '' @ fk_name fk))
          else if db_tables db (fk_ref_table fk) = None then
            Inl (Error (''1824 (HY000): Failed to open the referenced table '' @ fk_ref_table fk))
          else if find_column (t_def child) (fk_column fk) = None then
            Inl (Error (''1072 (42000): Key column does not exist in table: '' @ fk_column fk))
          else if fk_on_delete fk = SET_NULL \<and> \<not> nullable_in (t_def child) (fk_column fk) then
            Inl (Error (''1830 (HY000): Column cannot be NOT NULL: needed in a foreign key constraint '' @ fk_name fk @ '' SET NULL''))
          else Inr (db\<lparr>db_fks := db_fks db @ [fk]\<rparr>))"

subsection \<open>One statement on a database, and on the server\<close>

fun exec :: "nat \<Rightarrow> statement \<Rightarrow> database_state \<Rightarrow> error + database_state" where
  "exec now (CREATE_DATABASE_IF_NOT_EXISTS n) db = Inr db"
| "exec now (CREATE_TABLE_IF_NOT_EXISTS td) db = Inr (create_table db td)"
| "exec now (ALTER_TABLE_ADD_FOREIGN_KEY fk) db = add_foreign_key db fk"
| "exec now (INSERT mode t gs) db =
     (case db_tables db t of
        None \<Rightarrow> Inl (Error ''1146 (42S02): Table does not exist'')
      | Some tb \<Rightarrow>
          (case insert_rows now mode tb gs of
             Inl e \<Rightarrow> Inl e
           | Inr tb' \<Rightarrow> Inr (db\<lparr>db_tables := (db_tables db)(t \<mapsto> tb')\<rparr>)))"
| "exec now (UPDATE t as c v) db =
     (case db_tables db t of
        None \<Rightarrow> Inl (Error ''1146 (42S02): Table does not exist'')
      | Some tb \<Rightarrow>
          (case update_rows now tb as c v of
             Inl e \<Rightarrow> Inl e
           | Inr tb' \<Rightarrow> Inr (db\<lparr>db_tables := (db_tables db)(t \<mapsto> tb')\<rparr>)))"
| "exec now (DELETE t c v) db = delete_rows db t c v"
| "exec now COMMIT db = Inr db"
| "exec now (USE d) db = Inr db"

definition empty_database :: database_state where
  "empty_database = \<lparr>db_tables = Map.empty, db_fks = []\<rparr>"

text \<open>
  \<open>cursor.execute\<close> on a connection whose selected database is \<open>cur\<close>, at server time
  \<open>now\<close>. \<open>USE d\<close> is what the connector sends when the script assigns
  \<open>connection.database\<close>; the server refuses it for a database it does not hold. Every
  data statement of the script is followed by a commit before anything else reads the
  data, so uncommitted state is not kept apart.
\<close>

fun execute :: "nat \<Rightarrow> string option \<Rightarrow> statement \<Rightarrow> server_state \<Rightarrow> error + server_state" where
  "execute now cur (CREATE_DATABASE_IF_NOT_EXISTS n) srv =
     Inr (case srv n of Some db \<Rightarrow> srv | None \<Rightarrow> srv(n \<mapsto> empty_database))"
| "execute now cur COMMIT srv = Inr srv"
| "execute now cur (USE d) srv =
     (case srv d of
        None \<Rightarrow> Inl (Error (''1049 (42000): Unknown database '' @ d))
      | Some db \<Rightarrow> Inr srv)"
| "execute now None st srv = Inl (Error ''1046 (3D000): No database selected'')"
| "execute now (Some d) st srv =
     (case srv d of
        None \<Rightarrow> Inl (Error (''1049 (42000): Unknown database '' @ d))
      | Some db \<Rightarrow>
          (case exec now st db of
             Inl e \<Rightarrow> Inl e
           | Inr db' \<Rightarrow> Inr (srv(d \<mapsto> db'))))"

text \<open>\<open>SELECT * FROM t WHERE c1 = v1 AND c2 = v2 ...\<close>\<close>

definition select_where :: "database_state \<Rightarrow> string \<Rightarrow> (string \<times> val) list \<Rightarrow> row list" where
  "select_where db t conds =
     (case db_tables db t of
        None \<Rightarrow> []
      | Some tb \<Rightarrow> filter (\<lambda>r. list_all (\<lambda>(c, v). matches c v r) conds) (t_rows tb))"

subsection \<open>Scripts of statements and well-formed states\<close>

text \<open>
  What clients do to a database over time: statements, each at its own server time. A
  statement the server refuses leaves the database as it was.
\<close>

definition step :: "nat \<times> statement \<Rightarrow> database_state \<Rightarrow> database_state" where
  "step ts db = (case exec (fst ts) (snd ts) db of Inl e \<Rightarrow> db | Inr db' \<Rightarrow> db')"

definition run :: "(nat \<times> statement) list \<Rightarrow> database_state \<Rightarrow> database_state" where
  "run script db = fold step script db"

text \<open>
  A table is well formed when its rows respect \<open>NOT NULL\<close> and its keys; a database
  when its tables are, every foreign key's table exists, and a \<open>SET NULL\<close> key sits
  on a column that may be \<open>NULL\<close>.
\<close>

definition wf_table :: "table_state \<Rightarrow> bool" where
  "wf_table t = (list_all (row_ok (t_def t)) (t_rows t) \<and> keys_ok (t_def t) (t_rows t))"

definition wf_fk :: "(string \<rightharpoonup> table_state) \<Rightarrow> foreign_key \<Rightarrow> bool" where
  "wf_fk tabs fk =
     (case tabs (fk_table fk) of
        None \<Rightarrow> False
      | Some t \<Rightarrow> fk_on_delete fk = CASCADE \<or> nullable_in (t_def t) (fk_column fk))"

definition wf_database :: "database_state \<Rightarrow> bool" where
  "wf_database db =
     ((\<forall>n t. db_tables db n = Some t \<longrightarrow> wf_table t) \<and> list_all (wf_fk (db_tables db)) (db_fks db))"

text \<open>The definition a table was created with, if the table exists.\<close>

definition table_def_of :: "database_state \<Rightarrow> string \<Rightarrow> table_def option" where
  "table_def_of db n = map_option t_def (db_tables db n)"

definition rows_of :: "database_state \<Rightarrow> string \<Rightarrow> row list" where
  "rows_of db n = (case db_tables db n of None \<Rightarrow> [] | Some t \<Rightarrow> t_rows t)"

text \<open>Two table maps hold the same tables with the same definitions.\<close>

definition same_defs :: "(string \<rightharpoonup> table_state) \<Rightarrow> (string \<rightharpoonup> table_state) \<Rightarrow> bool" where
  "same_defs tabs tabs' = (\<forall>n. map_option t_def (tabs' n) = map_option t_def (tabs n))"

definition tabs_inv :: "foreign_key list \<Rightarrow> (string \<rightharpoonup> table_state) \<Rightarrow> bool" where
  "tabs_inv all tabs = ((\<forall>n t. tabs n = Some t \<longrightarrow> wf_table t) \<and> list_all (wf_fk tabs) all)"

text \<open>Every table of the first database is in the second, with the definition it had.\<close>

definition defs_kept :: "database_state \<Rightarrow> database_state \<Rightarrow> bool" where
  "defs_kept db db' = (\<forall>n td. table_def_of db n = Some td \<longrightarrow> table_def_of db' n = Some td)"

section \<open>The script\<close>

text \<open>
  The functions of \<open>init_database.py\<close>. Each takes \<open>ex\<close>, what \<open>cursor.execute\<close>
  does on the connection, and the state the script can see or change: the server
  behind the connection, the connection's selected database, and the lines logged.
  An exception that leaves a function is the left summand, with the state at the raise.
  Log lines are kept without their leading glyph and line break. The model starts where
  \<open>mysql.connector.connect\<close> has returned a connection that is connected.
\<close>

datatype level = INFO | WARNING | ERROR

record 'srv state =
  server :: 'srv
  database :: "string option"
  logged :: "(level \<times> string) list"

type_synonym 'srv executor = "string option \<Rightarrow> statement \<Rightarrow> 'srv \<Rightarrow> error + 'srv"

definition logger :: "level \<Rightarrow> string \<Rightarrow> 'srv state \<Rightarrow> 'srv state" where
  "logger l m st = st\<lparr>logged := logged st @ [(l, m)]\<rparr>"

text \<open>A name between single quotes, as the f-strings of the script print it.\<close>

definition quoted :: "string \<Rightarrow> string" where
  "quoted n = CHR 0x27 # n @ [CHR 0x27]"

definition create_database ::
  "'srv executor \<Rightarrow> string \<Rightarrow> 'srv state \<Rightarrow> (error \<times> 'srv state) + 'srv state" where
  "create_database ex database_name st =
     (case ex (database st) (CREATE_DATABASE_IF_NOT_EXISTS database_name) (server st) of
        Inr srv \<Rightarrow> Inr (logger INFO (''Database '' @ quoted database_name @ '' ready'') (st\<lparr>server := srv\<rparr>))
      | Inl e \<Rightarrow> Inl (e, logger ERROR (''Failed to create database: '' @ str e) st))"

fun create_tables_loop ::
  "'srv executor \<Rightarrow> (string \<times> table_def) list \<Rightarrow> 'srv state \<Rightarrow> (error \<times> 'srv state) + 'srv state" where
  "create_tables_loop ex [] st = Inr st"
| "create_tables_loop ex ((table_name, create_sql) # rest) st =
     (case ex (database st) (CREATE_TABLE_IF_NOT_EXISTS create_sql) (server st) of
        Inr srv \<Rightarrow>
          create_tables_loop ex rest
            (logger INFO (''Table '' @ quoted table_name @ '' created'') (st\<lparr>server := srv\<rparr>))
      | Inl e \<Rightarrow>
          Inl (e, logger ERROR (''Failed to create table '' @ quoted table_name @ '': '' @ str e) st))"

definition create_tables :: "'srv executor \<Rightarrow> 'srv state \<Rightarrow> (error \<times> 'srv state) + 'srv state" where
  "create_tables ex st = create_tables_loop ex tables st"

text \<open>
  The loop of \<open>add_foreign_keys\<close>. Its \<open>except\<close> clause handles every error of
  \<open>execute\<close> and raises none, so the function returns a state and nothing else.
\<close>

fun add_foreign_keys_loop :: "'srv executor \<Rightarrow> foreign_key list \<Rightarrow> 'srv state \<Rightarrow> 'srv state" where
  "add_foreign_keys_loop ex [] st = st"
| "add_foreign_keys_loop ex (constraint_sql # rest) st =
     add_foreign_keys_loop ex rest
       (case ex (database st) (ALTER_TABLE_ADD_FOREIGN_KEY constraint_sql) (server st) of
          Inr srv \<Rightarrow> logger INFO ''Foreign key constraint added'' (st\<lparr>server := srv\<rparr>)
        | Inl e \<Rightarrow>
            if \<not> sublist ''Duplicate'' (str e)
            then logger WARNING (''Constraint warning: '' @ str e) st
            else st)"

definition add_foreign_keys :: "'srv executor \<Rightarrow> 'srv state \<Rightarrow> 'srv state" where
  "add_foreign_keys ex st = add_foreign_keys_loop ex constraints st"

definition seed_row :: "(string \<times> val) list" where
  "seed_row = [
     (''product_name'', VStr ''WMaster Cleanup''),
     (''product_url'', VStr ''https://www.wmastercleanup.com/''),
     (''product_description'', VStr ''All-in-One Windows Cleaner & Optimizer for cleaning junk files, freeing disk space, and improving PC performance''),
     (''core_features'', VStr ''[\"Disk cleanup\", \"Duplicate file removal\", \"Application uninstaller\", \"Cache clearing\", \"Privacy protection\"]''),
     (''target_audience'', VStr ''Windows users who want to optimize PC performance, free up disk space, and maintain system health''),
     (''keywords'', VStr ''[\"PC cleanup\", \"Windows optimizer\", \"disk cleaner\", \"system speedup\", \"junk file removal\"]''),
     (''is_active'', VInt 1)]"

definition seed_statement :: statement where
  "seed_statement =
     INSERT (ON_DUPLICATE_KEY_UPDATE [(''updated_at'', Now)]) ''product_config'' [seed_row]"

definition seed_initial_data :: "'srv executor \<Rightarrow> 'srv state \<Rightarrow> (error \<times> 'srv state) + 'srv state" where
  "seed_initial_data ex st =
     (let st1 =
        (case ex (database st) seed_statement (server st) of
           Inr srv \<Rightarrow> logger INFO ''Default product config seeded'' (st\<lparr>server := srv\<rparr>)
         | Inl e \<Rightarrow> logger WARNING (''Product config already exists or error: '' @ str e) st)
      in case ex (database st1) COMMIT (server st1) of
           Inr srv \<Rightarrow> Inr (st1\<lparr>server := srv\<rparr>)
         | Inl e \<Rightarrow> Inl (e, st1))"

definition migration_rows :: "(string \<times> val) list list" where
  "migration_rows = [
     [(''version'', VInt 1), (''description'', VStr ''Initial schema'')],
     [(''version'', VInt 2), (''description'', VStr ''Add incremental update support'')],
     [(''version'', VInt 3), (''description'', VStr ''Add AI provider field'')],
     [(''version'', VInt 4), (''description'', VStr ''Add language detection confidence'')]]"

definition create_schema_version_table ::
  "'srv executor \<Rightarrow> 'srv state \<Rightarrow> (error \<times> 'srv state) + 'srv state" where
  "create_schema_version_table ex st =
     (case ex (database st) (CREATE_TABLE_IF_NOT_EXISTS schema_migrations) (server st) of
        Inl e \<Rightarrow> Inl (e, st)
      | Inr srv1 \<Rightarrow>
          (case ex (database st) (INSERT IGNORE ''schema_migrations'' migration_rows) srv1 of
             Inl e \<Rightarrow> Inl (e, st\<lparr>server := srv1\<rparr>)
           | Inr srv2 \<Rightarrow>
               (let st2 = logger INFO ''Schema version tracking ready'' (st\<lparr>server := srv2\<rparr>)
                in case ex (database st2) COMMIT (server st2) of
                     Inl e \<Rightarrow> Inl (e, st2)
                   | Inr srv3 \<Rightarrow> Inr (st2\<lparr>server := srv3\<rparr>))))"

text \<open>
  The body of the \<open>try\<close> of \<open>main\<close>, from the point where the connection stands:
  the steps in order and the success lines after the last. The assignment
  \<open>connection.database = args.database\<close> sends \<open>USE\<close> to the server and raises
  when the server refuses it.
\<close>

definition steps :: "'srv executor \<Rightarrow> string \<Rightarrow> 'srv state \<Rightarrow> (error \<times> 'srv state) + 'srv state" where
  "steps ex database_name st =
     (case create_database ex database_name (logger INFO ''Connected to MySQL server'' st) of
        Inl x \<Rightarrow> Inl x
      | Inr st1 \<Rightarrow>
     (case ex (database st1) (USE database_name) (server st1) of
        Inl e \<Rightarrow> Inl (e, st1)
      | Inr srv \<Rightarrow>
     (case create_tables ex
             (logger INFO ''Creating tables...''
               (st1\<lparr>server := srv, database := Some database_name\<rparr>)) of
        Inl x \<Rightarrow> Inl x
      | Inr st2 \<Rightarrow>
     (case seed_initial_data ex
             (logger INFO ''Seeding initial data...''
               (add_foreign_keys ex (logger INFO ''Adding foreign key constraints...'' st2))) of
        Inl x \<Rightarrow> Inl x
      | Inr st3 \<Rightarrow>
     (case create_schema_version_table ex (logger INFO ''Setting up schema versioning...'' st3) of
        Inl x \<Rightarrow> Inl x
      | Inr st4 \<Rightarrow>
          Inr (logger INFO ''3. Start the application with: docker-compose up -d''
              (logger INFO ''2. Add your API keys via the web interface''
              (logger INFO ''1. Copy .env.example to .env''
              (logger INFO ''Next steps:''
              (logger INFO (''Database: '' @ database_name)
              (logger INFO ''Database initialization completed successfully!'' st4)))))))))))"

text \<open>
  \<open>main\<close>: the steps, the handler that logs a failure and leaves with exit status 1,
  and the \<open>finally\<close> clause, which closes the connection and logs that it did. The
  result is the exit status and the final state.
\<close>

definition main :: "'srv executor \<Rightarrow> string \<Rightarrow> 'srv state \<Rightarrow> nat \<times> 'srv state" where
  "main ex database_name st =
     (case steps ex database_name st of
        Inr st' \<Rightarrow> (0, logger INFO ''MySQL connection closed'' st')
      | Inl (e, st') \<Rightarrow>
          (1, logger INFO ''MySQL connection closed''
                (logger ERROR (''Database initialization failed: '' @ str e) st')))"

text \<open>A fresh connection to a server: no database selected, nothing logged.\<close>

definition connect :: "'srv \<Rightarrow> 'srv state" where
  "connect srv = \<lparr>server = srv, database = None, logged = []\<rparr>"

text \<open>The server after one run of the script against it, on a fresh connection.\<close>

definition bootstrap :: "nat \<Rightarrow> string \<Rightarrow> server_state \<Rightarrow> server_state" where
  "bootstrap now database_name srv = server (snd (main (execute now) database_name (connect srv)))"

subsection \<open>Predicates on runs of the script\<close>




subsection \<open>Predicates on the migration ledger\<close>

text \<open>A version is in the ledger; the number of ledger rows that carry it.\<close>

definition has_version :: "row list \<Rightarrow> int \<Rightarrow> bool" where
  "has_version rows v = list_ex (\<lambda>r. r ''version'' = VInt v) rows"

definition version_count :: "row list \<Rightarrow> int \<Rightarrow> nat" where
  "version_count rows v = length (filter (\<lambda>r. r ''version'' = VInt v) rows)"

text \<open>
  What inserting version \<open>v\<close> with \<open>INSERT IGNORE\<close> does to the ledger table: the
  rows there stay as a prefix, \<open>v\<close> is present afterwards, and nothing changes when
  it was present before.
\<close>

definition ledger_step :: "int \<Rightarrow> table_state \<Rightarrow> table_state \<Rightarrow> bool" where
  "ledger_step v t t' =
     (t_def t' = t_def t \<and> prefix (t_rows t) (t_rows t') \<and> has_version (t_rows t') v
      \<and> (has_version (t_rows t) v \<longrightarrow> t' = t))"

text \<open>\<open>create_schema_version_table\<close> run again and again, at the given server times.\<close>

fun rerun_schema_version_table ::
  "nat list \<Rightarrow> server_state state \<Rightarrow> (error \<times> server_state state) + server_state state" where
  "rerun_schema_version_table [] st = Inr st"
| "rerun_schema_version_table (now # nows) st =
     (case create_schema_version_table (execute now) st of
        Inl x \<Rightarrow> Inl x
      | Inr st' \<Rightarrow> rerun_schema_version_table nows st')"

subsection \<open>Invariants of the server under the script\<close>

text \<open>
  A property of the server that no accepted statement breaks; the server an outcome of
  a function of the script leaves, whether it returned or raised; a server whose
  databases are all well formed.
\<close>

definition preserved :: "'srv executor \<Rightarrow> ('srv \<Rightarrow> bool) \<Rightarrow> bool" where
  "preserved ex P = (\<forall>cur s srv srv'. P srv \<longrightarrow> ex cur s srv = Inr srv' \<longrightarrow> P srv')"

definition outcome_server :: "(error \<times> 'srv state) + 'srv state \<Rightarrow> 'srv" where
  "outcome_server r = (case r of Inl (e, st) \<Rightarrow> server st | Inr st \<Rightarrow> server st)"

definition wf_server :: "server_state \<Rightarrow> bool" where
  "wf_server srv = (\<forall>d db. srv d = Some db \<longrightarrow> wf_database db)"

text \<open>
  The database \<open>youtube_kol_db\<close> (the default of \<open>--database\<close>) after one run of
  the script, at server time 0, against a server that holds no database.
\<close>

definition bootstrapped :: database_state where
  "bootstrapped =
     (case bootstrap 0 ''youtube_kol_db'' Map.empty ''youtube_kol_db'' of
        Some db \<Rightarrow> db
      | None \<Rightarrow> empty_database)"

text \<open>
  The \<open>AUTO_INCREMENT\<close> counter of a table is ahead of the stored rows: no row holds
  the value the next insert will generate. The server keeps it so under inserts.
\<close>

definition auto_increment_fresh :: "database_state \<Rightarrow> string \<Rightarrow> bool" where
  "auto_increment_fresh db n =
     (case db_tables db n of
        None \<Rightarrow> False
      | Some t \<Rightarrow> list_all (\<lambda>r. r ''id'' \<noteq> VInt (t_auto_increment t)) (t_rows t))"

text \<open>
  The counter is also inside the range of the column type \<open>INT\<close>, so that the server
  can still generate a value.
\<close>

definition auto_increment_in_range :: "database_state \<Rightarrow> string \<Rightarrow> bool" where
  "auto_increment_in_range db n =
     (case db_tables db n of
        None \<Rightarrow> False
      | Some t \<Rightarrow> 0 < t_auto_increment t \<and> t_auto_increment t \<le> 2147483647)"

subsection \<open>Servers on which the ledger statements apply\<close>



subsection \<open>The rows of one table, read and rewritten\<close>

definition upd_rows ::
  "(row list \<Rightarrow> row list) \<Rightarrow> string \<Rightarrow> (string \<rightharpoonup> table_state) \<Rightarrow> (string \<rightharpoonup> table_state)" where
  "upd_rows f n tabs =
     (case tabs n of None \<Rightarrow> tabs | Some t \<Rightarrow> tabs(n \<mapsto> t\<lparr>t_rows := f (t_rows t)\<rparr>))"

definition tab_rows :: "(string \<rightharpoonup> table_state) \<Rightarrow> string \<Rightarrow> row list" where
  "tab_rows tabs n = (case tabs n of None \<Rightarrow> [] | Some t \<Rightarrow> t_rows t)"

subsection \<open>Two servers to run the statements on\<close>


text \<open>
  The database the script creates, with data as the application stores it, parents
  before children: two search tasks, the second an incremental run of the first, one
  channel, a video statistics snapshot of the channel for the first task, and an
  analysis of the channel for the second. Every value fits its column, and every
  reference names a row that is there.
\<close>

definition sample_database :: database_state where
  "sample_database = run
     [(1, INSERT FAIL ''search_tasks''
            [[(''task_id'', VStr ''task-a''), (''keyword'', VStr ''windows cleaner'')]]),
      (2, INSERT FAIL ''search_tasks''
            [[(''task_id'', VStr ''task-b''), (''keyword'', VStr ''windows cleaner''),
              (''is_incremental'', VInt 1), (''parent_task_id'', VStr ''task-a'')]]),
      (3, INSERT FAIL ''channels''
            [[(''channel_id'', VStr ''UC1''), (''channel_title'', VStr ''PC Tips''),
              (''channel_url'', VStr ''https://www.youtube.com/channel/UC1''),
              (''first_discovered_at'', VTime 3), (''last_seen_at'', VTime 3)]]),
      (4, INSERT FAIL ''channel_video_stats''
            [[(''channel_id'', VStr ''UC1''), (''task_id'', VStr ''task-a''),
              (''recent_videos'', VStr ''[]'')]]),
      (5, INSERT FAIL ''ai_analysis''
            [[(''channel_id'', VStr ''UC1''), (''task_id'', VStr ''task-b''),
              (''analysis_detail'', VStr ''{}'')]])]
     bootstrapped"

section \<open>Properties of the server model\<close>

subsection \<open>Keys under insertion, deletion and nulling\<close>

lemma exec_insert_one:
  "db_tables db t = Some tb \<Longrightarrow>
   exec now (INSERT mode t [g]) db =
     (case insert_row now mode tb g of
        Inl e \<Rightarrow> Inl e
      | Inr tb' \<Rightarrow> Inr (db\<lparr>db_tables := (db_tables db)(t \<mapsto> tb')\<rparr>))"
  by (simp split: sum.splits)

lemma insert_row_FAIL_Inr:
  assumes "insert_row now FAIL t g = Inr t'"
  shows "row_ok (t_def t) (new_row now t g)"
    and "\<not> list_ex (collides (t_def t) (new_row now t g)) (t_rows t)"
    and "t_rows t' = t_rows t @ [new_row now t g]"
    and "t_def t' = t_def t"
  using assms unfolding insert_row_def Let_def by (auto split: if_splits)

lemma insert_row_collision_FAIL:
  "list_ex (collides (t_def t) (new_row now t g)) (t_rows t) \<Longrightarrow> \<exists>e. insert_row now FAIL t g = Inl e"
  unfolding insert_row_def Let_def by auto

lemma length_update_first: "length (update_first P f xs) = length xs"
  by (induction xs) auto

lemma map_update_first:
  "(\<And>x. h (f x) = h x) \<Longrightarrow> map h (update_first P f xs) = map h xs"
  by (induction xs) auto

lemma insert_row_collision_length:
  "list_ex (collides (t_def t) (new_row now t g)) (t_rows t) \<Longrightarrow> insert_row now mode t g = Inr t'
     \<Longrightarrow> length (t_rows t') = length (t_rows t)"
  unfolding insert_row_def Let_def
  by (auto split: if_splits on_duplicate.splits simp: length_update_first)

lemma assign_other: "c \<notin> fst ` set as \<Longrightarrow> assign now as r c = r c"
  by (induction as arbitrary: r) auto

lemma stamp_other:
  "(\<forall>col \<in> set cols. has_attr col ON_UPDATE_CURRENT_TIMESTAMP \<longrightarrow> col_name col \<noteq> c)
     \<Longrightarrow> stamp now as cols r c = r c"
  by (induction cols arbitrary: r) auto

lemma distinct_pairs:
  "\<forall>r \<in> set rows. r a \<noteq> VNull \<and> r b \<noteq> VNull \<Longrightarrow> key_ok rows [Asc a, Asc b]
     \<Longrightarrow> distinct (map (\<lambda>r. (r a, r b)) rows)"
proof -
  assume nn: "\<forall>r \<in> set rows. r a \<noteq> VNull \<and> r b \<noteq> VNull" and ok: "key_ok rows [Asc a, Asc b]"
  have "filter (\<lambda>k. VNull \<notin> set k) (map (\<lambda>r. [r a, r b]) rows) = map (\<lambda>r. [r a, r b]) rows"
    using nn by (auto simp: filter_id_conv)
  moreover have "key_of [Asc a, Asc b] = (\<lambda>r. [r a, r b])"
    by (rule ext) (simp add: key_of_def)
  ultimately have "distinct (map (\<lambda>r. [r a, r b]) rows)"
    using ok by (simp add: key_ok_def)
  then have "distinct (map (\<lambda>p. [fst p, snd p]) (map (\<lambda>r. (r a, r b)) rows))"
    by (simp add: comp_def)
  then show ?thesis by (rule distinct_map[THEN iffD1, THEN conjunct1])
qed

lemma distinct_single:
  "\<forall>r \<in> set rows. r a \<noteq> VNull \<Longrightarrow> key_ok rows [Asc a]
     \<Longrightarrow> distinct (map (\<lambda>r. r a) rows)"
proof -
  assume nn: "\<forall>r \<in> set rows. r a \<noteq> VNull" and ok: "key_ok rows [Asc a]"
  have "filter (\<lambda>k. VNull \<notin> set k) (map (\<lambda>r. [r a]) rows) = map (\<lambda>r. [r a]) rows"
    using nn by (auto simp: filter_id_conv)
  moreover have "key_of [Asc a] = (\<lambda>r. [r a])"
    by (rule ext) (simp add: key_of_def)
  ultimately have "distinct (map (\<lambda>r. [r a]) rows)"
    using ok by (simp add: key_ok_def)
  then have "distinct (map (\<lambda>v. [v]) (map (\<lambda>r. r a) rows))"
    by (simp add: comp_def)
  then show ?thesis by (rule distinct_map[THEN iffD1, THEN conjunct1])
qed

lemma filter_distinct_one:
  "distinct (map f xs) \<Longrightarrow> x \<in> set xs \<Longrightarrow> filter (\<lambda>y. f y = f x) xs = [x]"
proof (induction xs)
  case Nil then show ?case by simp
next
  case (Cons a xs)
  show ?case
  proof (cases "a = x")
    case True
    have "filter (\<lambda>y. f y = f x) xs = []"
      using Cons.prems(1) True by (auto simp: filter_empty_conv image_iff)
    then show ?thesis using True by simp
  next
    case False
    then have "x \<in> set xs" using Cons.prems(2) by simp
    then have "f a \<noteq> f x" using Cons.prems(1) by (auto simp: image_iff)
    then show ?thesis using Cons \<open>x \<in> set xs\<close> by simp
  qed
qed

lemma key_ok_Nil: "key_ok [] ps" by (simp add: key_ok_def)

lemma key_ok_filter: "key_ok rows ps \<Longrightarrow> key_ok (filter P rows) ps"
  unfolding key_ok_def by (induction rows) auto

lemma key_ok_map:
  assumes "\<And>r. key_of ps (g r) = key_of ps r \<or> VNull \<in> set (key_of ps (g r))"
  shows "key_ok rows ps \<Longrightarrow> key_ok (map g rows) ps"
  unfolding key_ok_def
proof (induction rows)
  case Nil then show ?case by simp
next
  case (Cons r rows)
  have sub: "set (filter (\<lambda>k. VNull \<notin> set k) (map (key_of ps) (map g rows)))
      \<subseteq> set (filter (\<lambda>k. VNull \<notin> set k) (map (key_of ps) rows))"
    using assms by force
  from Cons show ?case using assms[of r] sub by (auto split: if_splits)
qed

lemma key_ok_snoc:
  "key_ok (rows @ [r]) ps \<longleftrightarrow>
     key_ok rows ps \<and> (VNull \<in> set (key_of ps r) \<or> (\<forall>r' \<in> set rows. key_of ps r' \<noteq> key_of ps r))"
  unfolding key_ok_def by (auto simp: image_iff)

lemma keys_ok_snoc:
  "keys_ok td rows \<Longrightarrow> \<not> list_ex (collides td r) rows \<Longrightarrow> keys_ok td (rows @ [r])"
  unfolding keys_ok_def collides_def list_all_iff list_ex_iff same_key_def key_ok_snoc
  by metis

lemma keys_ok_filter: "keys_ok td rows \<Longrightarrow> keys_ok td (filter P rows)"
  unfolding keys_ok_def list_all_iff by (auto intro: key_ok_filter)

lemma part_val_upd_null:
  "part_val (r(c := VNull)) p = part_val r p \<or> part_val (r(c := VNull)) p = VNull"
  by (cases p) auto

lemma key_of_upd_null:
  "key_of ps (r(c := VNull)) = key_of ps r \<or> VNull \<in> set (key_of ps (r(c := VNull)))"
proof -
  define r' where "r' = r(c := VNull)"
  have "\<forall>p. part_val r' p = part_val r p \<or> part_val r' p = VNull"
    unfolding r'_def by (simp add: part_val_upd_null)
  then have "map (part_val r') ps = map (part_val r) ps \<or> VNull \<in> set (map (part_val r') ps)"
    by (induction ps) force+
  then show ?thesis unfolding key_of_def r'_def .
qed

lemma keys_ok_set_null: "keys_ok td rows \<Longrightarrow> keys_ok td (map (set_null fk dead) rows)"
proof -
  have "\<And>ps r. key_of ps (set_null fk dead r) = key_of ps r
          \<or> VNull \<in> set (key_of ps (set_null fk dead r))"
    unfolding set_null_def using key_of_upd_null by simp
  then show "keys_ok td rows \<Longrightarrow> keys_ok td (map (set_null fk dead) rows)"
    unfolding keys_ok_def list_all_iff using key_ok_map by blast
qed

lemma row_ok_upd_null:
  "row_ok td r \<Longrightarrow> nullable_in td c \<Longrightarrow> row_ok td (r(c := VNull))"
  unfolding row_ok_def nullable_in_def list_all_iff by auto

lemma wf_table_insert_row:
  "wf_table t \<Longrightarrow> insert_row now mode t g = Inr t' \<Longrightarrow> wf_table t' \<and> t_def t' = t_def t"
  unfolding insert_row_def wf_table_def Let_def
  by (auto split: if_splits on_duplicate.splits simp: keys_ok_snoc)

lemma wf_table_insert_rows:
  "wf_table t \<Longrightarrow> insert_rows now mode t gs = Inr t' \<Longrightarrow> wf_table t' \<and> t_def t' = t_def t"
proof (induction gs arbitrary: t)
  case Nil then show ?case by simp
next
  case (Cons g gs)
  then show ?case using wf_table_insert_row by (fastforce split: sum.splits)
qed

lemma wf_table_update_rows:
  "update_rows now t as c v = Inr t' \<Longrightarrow> wf_table t' \<and> t_def t' = t_def t"
  unfolding update_rows_def wf_table_def Let_def
  by (auto split: if_splits)

subsection \<open>Referential actions keep tables well formed\<close>

lemma same_defs_refl: "same_defs tabs tabs" by (simp add: same_defs_def)

lemma same_defs_trans: "same_defs a b \<Longrightarrow> same_defs b c \<Longrightarrow> same_defs a c"
  by (simp add: same_defs_def)

lemma same_defs_upd:
  "tabs c = Some child \<Longrightarrow> t_def child' = t_def child \<Longrightarrow> same_defs tabs (tabs(c \<mapsto> child'))"
  by (simp add: same_defs_def)

lemma wf_fk_same_defs: "same_defs tabs tabs' \<Longrightarrow> wf_fk tabs' fk = wf_fk tabs fk"
proof -
  assume "same_defs tabs tabs'"
  then have "map_option t_def (tabs' (fk_table fk)) = map_option t_def (tabs (fk_table fk))"
    by (simp add: same_defs_def)
  then show ?thesis
    unfolding wf_fk_def by (cases "tabs (fk_table fk)"; cases "tabs' (fk_table fk)") auto
qed

lemma tabs_inv_upd:
  assumes "tabs_inv all tabs" "tabs c = Some child" "wf_table child'" "t_def child' = t_def child"
  shows "tabs_inv all (tabs(c \<mapsto> child'))"
proof -
  have "same_defs tabs (tabs(c \<mapsto> child'))" using assms(2,4) by (rule same_defs_upd)
  then have "list_all (wf_fk (tabs(c \<mapsto> child'))) all = list_all (wf_fk tabs) all"
    by (simp add: wf_fk_same_defs cong: list.pred_cong)
  then show ?thesis using assms unfolding tabs_inv_def by auto
qed

lemma wf_table_filter: "wf_table t \<Longrightarrow> wf_table (t\<lparr>t_rows := filter P (t_rows t)\<rparr>)"
  unfolding wf_table_def by (simp add: keys_ok_filter list_all_iff)

lemma wf_table_set_null:
  assumes "wf_table t" "nullable_in (t_def t) (fk_column fk)"
  shows "wf_table (t\<lparr>t_rows := map (set_null fk dead) (t_rows t)\<rparr>)"
proof -
  have "\<And>r. row_ok (t_def t) r \<Longrightarrow> row_ok (t_def t) (set_null fk dead r)"
    unfolding set_null_def using assms(2) by (simp add: row_ok_upd_null)
  then show ?thesis using assms(1) unfolding wf_table_def
    by (simp add: keys_ok_set_null list_all_iff)
qed

lemma cascade_inv:
  "cascade n all fks t dead tabs = Inr tabs' \<Longrightarrow> set fks \<subseteq> set all \<Longrightarrow> tabs_inv all tabs
     \<Longrightarrow> tabs_inv all tabs' \<and> same_defs tabs tabs'"
proof (induction n all fks t dead tabs arbitrary: tabs' rule: cascade.induct)
  case (1 n all t dead tabs)
  then show ?case by (simp add: same_defs_refl)
next
  case (2 n all fk fks t dead tabs)
  have sub: "set fks \<subseteq> set all" and fk_in: "fk \<in> set all" using "2.prems"(2) by auto
  show ?case
  proof (cases "fk_ref_table fk \<noteq> t")
    case True
    then show ?thesis using "2.IH"(1) "2.prems" sub by simp
  next
    case same: False
    show ?thesis
    proof (cases "tabs (fk_table fk)")
      case None
      then show ?thesis using "2.IH"(2) "2.prems" sub same by simp
    next
      case (Some child)
      have wfc: "wf_table child" using "2.prems"(3) Some by (auto simp: tabs_inv_def)
      have wffk: "wf_fk tabs fk" using "2.prems"(3) fk_in by (auto simp: tabs_inv_def list_all_iff)
      show ?thesis
      proof (cases "filter (refers fk dead) (t_rows child)")
        case Nil
        then show ?thesis using "2.IH"(3) "2.prems" sub same Some by simp
      next
        case (Cons h hs)
        show ?thesis
        proof (cases "fk_on_delete fk")
          case SET_NULL
          let ?child' = "child\<lparr>t_rows := map (set_null fk dead) (t_rows child)\<rparr>"
          let ?tabs1 = "tabs(fk_table fk \<mapsto> ?child')"
          have nul: "nullable_in (t_def child) (fk_column fk)"
            using wffk Some SET_NULL by (simp add: wf_fk_def)
          have inv1: "tabs_inv all ?tabs1"
            using "2.prems"(3) Some wf_table_set_null[OF wfc nul] by (intro tabs_inv_upd) auto
          have sd1: "same_defs tabs ?tabs1" using Some by (intro same_defs_upd) auto
          have run: "cascade n all fks t dead ?tabs1 = Inr tabs'"
            using "2.prems"(1) same Some Cons SET_NULL by simp
          have "tabs_inv all tabs' \<and> same_defs ?tabs1 tabs'"
            by (rule "2.IH"(4)[OF same Some Cons SET_NULL run sub inv1])
          then show ?thesis using sd1 same_defs_trans by blast
        next
          case CASCADE
          let ?child' = "child\<lparr>t_rows := filter (\<lambda>r. \<not> refers fk dead r) (t_rows child)\<rparr>"
          let ?tabs1 = "tabs(fk_table fk \<mapsto> ?child')"
          have inv1: "tabs_inv all ?tabs1"
            using "2.prems"(3) Some wf_table_filter[OF wfc] by (intro tabs_inv_upd) auto
          have sd1: "same_defs tabs ?tabs1" using Some by (intro same_defs_upd) auto
          obtain m where n: "n = Suc m"
            using "2.prems"(1) same Some Cons CASCADE by (cases n) auto
          obtain b where inner: "cascade m all all (fk_table fk) (h # hs) ?tabs1 = Inr b"
            and rest: "cascade n all fks t dead b = Inr tabs'"
            using "2.prems"(1) same Some Cons CASCADE n by (auto split: sum.splits)
          have b: "tabs_inv all b \<and> same_defs ?tabs1 b"
            by (rule "2.IH"(5)[OF same Some Cons CASCADE n inner subset_refl inv1])
          have "tabs_inv all tabs' \<and> same_defs b tabs'"
            using "2.IH"(6)[OF same Some Cons CASCADE n inner rest sub] b by blast
          then show ?thesis using sd1 b same_defs_trans by blast
        qed
      qed
    qed
  qed
qed

subsection \<open>Every statement keeps the database well formed\<close>

lemma wf_database_iff: "wf_database db = tabs_inv (db_fks db) (db_tables db)"
  by (simp add: wf_database_def tabs_inv_def)

lemma defs_kept_refl: "defs_kept db db" by (simp add: defs_kept_def)

lemma defs_kept_trans: "defs_kept a b \<Longrightarrow> defs_kept b c \<Longrightarrow> defs_kept a c"
  by (simp add: defs_kept_def)

lemma defs_kept_same_defs:
  "same_defs (db_tables db) (db_tables db') \<Longrightarrow> defs_kept db db'"
  by (simp add: defs_kept_def same_defs_def table_def_of_def)

lemma wf_table_empty: "wf_table \<lparr>t_def = td, t_rows = [], t_auto_increment = 1\<rparr>"
  by (simp add: wf_table_def keys_ok_def key_ok_def list_all_iff)

lemma wf_create_table:
  assumes "wf_database db"
  shows "wf_database (create_table db td) \<and> defs_kept db (create_table db td)"
proof (cases "db_tables db (td_name td)")
  case (Some t)
  then show ?thesis using assms by (simp add: create_table_def defs_kept_refl)
next
  case None
  let ?tabs = "(db_tables db)(td_name td \<mapsto> \<lparr>t_def = td, t_rows = [], t_auto_increment = 1\<rparr>)"
  have "wf_fk ?tabs fk" if "wf_fk (db_tables db) fk" for fk
    using that None unfolding wf_fk_def by (auto split: option.splits)
  then have "list_all (wf_fk ?tabs) (db_fks db)"
    using assms by (simp add: wf_database_def list_all_iff)
  moreover have "\<forall>n t. ?tabs n = Some t \<longrightarrow> wf_table t"
    using assms wf_table_empty by (auto simp: wf_database_def)
  ultimately have "wf_database (create_table db td)"
    using None by (simp add: create_table_def wf_database_def)
  moreover have "defs_kept db (create_table db td)"
    using None by (auto simp: create_table_def defs_kept_def table_def_of_def)
  ultimately show ?thesis by simp
qed

lemma wf_add_foreign_key:
  assumes "wf_database db" "add_foreign_key db fk = Inr db'"
  shows "wf_database db' \<and> defs_kept db db'"
proof -
  obtain child where c: "db_tables db (fk_table fk) = Some child"
    using assms(2) by (auto simp: add_foreign_key_def split: option.splits)
  have db': "db' = db\<lparr>db_fks := db_fks db @ [fk]\<rparr>"
    and nul: "fk_on_delete fk = SET_NULL \<longrightarrow> nullable_in (t_def child) (fk_column fk)"
    using assms(2) c by (auto simp: add_foreign_key_def split: if_splits)
  have "wf_fk (db_tables db) fk"
    using c nul unfolding wf_fk_def by (cases "fk_on_delete fk") auto
  then show ?thesis using assms(1) db'
    by (simp add: wf_database_def defs_kept_def table_def_of_def)
qed

lemma wf_table_replace:
  assumes "wf_database db" "db_tables db t = Some tb" "wf_table tb'" "t_def tb' = t_def tb"
  shows "wf_database (db\<lparr>db_tables := (db_tables db)(t \<mapsto> tb')\<rparr>)
         \<and> defs_kept db (db\<lparr>db_tables := (db_tables db)(t \<mapsto> tb')\<rparr>)"
proof -
  have "tabs_inv (db_fks db) ((db_tables db)(t \<mapsto> tb'))"
    using assms by (intro tabs_inv_upd) (auto simp: wf_database_iff)
  moreover have "same_defs (db_tables db) ((db_tables db)(t \<mapsto> tb'))"
    using assms(2,4) by (rule same_defs_upd)
  ultimately show ?thesis by (simp add: wf_database_iff defs_kept_same_defs)
qed

lemma wf_delete_rows:
  assumes "wf_database db" "delete_rows db t c v = Inr db'"
  shows "wf_database db' \<and> defs_kept db db'"
proof -
  obtain tb where tb: "db_tables db t = Some tb"
    using assms(2) by (auto simp: delete_rows_def split: option.splits)
  let ?tb' = "tb\<lparr>t_rows := filter (\<lambda>r. \<not> matches c v r) (t_rows tb)\<rparr>"
  let ?tabs1 = "(db_tables db)(t \<mapsto> ?tb')"
  obtain tabs where run: "cascade 15 (db_fks db) (db_fks db) t (filter (matches c v) (t_rows tb)) ?tabs1 = Inr tabs"
    and db': "db' = db\<lparr>db_tables := tabs\<rparr>"
    using assms(2) tb by (auto simp: delete_rows_def split: if_splits sum.splits)
  have "wf_table tb" using assms(1) tb by (auto simp: wf_database_def)
  then have "wf_table ?tb'" by (rule wf_table_filter)
  then have inv1: "tabs_inv (db_fks db) ?tabs1"
    using assms(1) tb by (intro tabs_inv_upd) (auto simp: wf_database_iff)
  have sd1: "same_defs (db_tables db) ?tabs1" using tb by (intro same_defs_upd) auto
  have "tabs_inv (db_fks db) tabs \<and> same_defs ?tabs1 tabs"
    by (rule cascade_inv[OF run subset_refl inv1])
  then show ?thesis using db' sd1 same_defs_trans
    by (auto simp: wf_database_iff intro!: defs_kept_same_defs)
qed

lemma wf_exec:
  assumes "wf_database db" "exec now st db = Inr db'"
  shows "wf_database db' \<and> defs_kept db db'"
proof (cases st)
  case (CREATE_DATABASE_IF_NOT_EXISTS n)
  then show ?thesis using assms by (auto simp: defs_kept_refl)
next
  case (CREATE_TABLE_IF_NOT_EXISTS td)
  then show ?thesis using assms wf_create_table by auto
next
  case (ALTER_TABLE_ADD_FOREIGN_KEY fk)
  then show ?thesis using assms wf_add_foreign_key by auto
next
  case (INSERT mode t gs)
  then obtain tb tb' where tb: "db_tables db t = Some tb"
    and ins: "insert_rows now mode tb gs = Inr tb'"
    and db': "db' = db\<lparr>db_tables := (db_tables db)(t \<mapsto> tb')\<rparr>"
    using assms(2) by (auto split: option.splits sum.splits)
  have "wf_table tb" using assms(1) tb by (auto simp: wf_database_def)
  then have "wf_table tb' \<and> t_def tb' = t_def tb" using ins by (rule wf_table_insert_rows)
  then show ?thesis using wf_table_replace[OF assms(1) tb] db' by simp
next
  case (UPDATE t as c v)
  then obtain tb tb' where tb: "db_tables db t = Some tb"
    and upd: "update_rows now tb as c v = Inr tb'"
    and db': "db' = db\<lparr>db_tables := (db_tables db)(t \<mapsto> tb')\<rparr>"
    using assms(2) by (auto split: option.splits sum.splits)
  have "wf_table tb' \<and> t_def tb' = t_def tb" using upd by (rule wf_table_update_rows)
  then show ?thesis using wf_table_replace[OF assms(1) tb] db' by simp
next
  case (DELETE t c v)
  then show ?thesis using assms wf_delete_rows by auto
next
  case COMMIT
  then show ?thesis using assms by (auto simp: defs_kept_refl)
next
  case (USE d)
  then show ?thesis using assms by (auto simp: defs_kept_refl)
qed

lemma wf_step: "wf_database db \<Longrightarrow> wf_database (step ts db) \<and> defs_kept db (step ts db)"
  unfolding step_def using wf_exec by (auto split: sum.splits simp: defs_kept_refl)

lemma wf_run: "wf_database db \<Longrightarrow> wf_database (run script db) \<and> defs_kept db (run script db)"
  unfolding run_def
proof (induction script arbitrary: db)
  case Nil then show ?case by (simp add: defs_kept_refl)
next
  case (Cons ts script)
  have 1: "wf_database (step ts db) \<and> defs_kept db (step ts db)" using Cons.prems by (rule wf_step)
  then have "wf_database (fold step script (step ts db)) \<and> defs_kept (step ts db) (fold step script (step ts db))"
    using Cons.IH by blast
  then show ?case using 1 defs_kept_trans by auto
qed

section \<open>The script keeps the server well formed\<close>

lemma logger_simps:
  "server (logger l m st) = server st"
  "database (logger l m st) = database st"
  "logged (logger l m st) = logged st @ [(l, m)]"
  by (simp_all add: logger_def)

lemma preservedD: "preserved ex P \<Longrightarrow> P srv \<Longrightarrow> ex cur s srv = Inr srv' \<Longrightarrow> P srv'"
  unfolding preserved_def by blast

lemma create_database_preserves:
  "preserved ex P \<Longrightarrow> P (server st) \<Longrightarrow> P (outcome_server (create_database ex n st))"
proof (cases "ex (database st) (CREATE_DATABASE_IF_NOT_EXISTS n) (server st)")
  case (Inl e)
  assume "P (server st)"
  then show ?thesis using Inl by (simp add: create_database_def outcome_server_def logger_simps)
next
  case (Inr srv)
  assume a: "preserved ex P" "P (server st)"
  have "P srv" by (rule preservedD[OF a Inr])
  then show ?thesis using Inr by (simp add: create_database_def outcome_server_def logger_simps)
qed

lemma create_tables_loop_preserves:
  "preserved ex P \<Longrightarrow> P (server st) \<Longrightarrow> P (outcome_server (create_tables_loop ex ts st))"
proof (induction ts arbitrary: st)
  case Nil
  then show ?case by (simp add: outcome_server_def)
next
  case (Cons a ts)
  obtain table_name create_sql where a: "a = (table_name, create_sql)" by (cases a)
  show ?case
  proof (cases "ex (database st) (CREATE_TABLE_IF_NOT_EXISTS create_sql) (server st)")
    case (Inl e)
    then show ?thesis using Cons.prems a by (simp add: outcome_server_def logger_simps)
  next
    case (Inr srv)
    have "P srv" by (rule preservedD[OF Cons.prems(1) Cons.prems(2) Inr])
    then have "P (server (logger INFO (''Table '' @ quoted table_name @ '' created'') (st\<lparr>server := srv\<rparr>)))"
      by (simp add: logger_simps)
    from Cons.IH[OF Cons.prems(1) this] show ?thesis using Inr a by simp
  qed
qed

lemma add_foreign_keys_loop_preserves:
  "preserved ex P \<Longrightarrow> P (server st) \<Longrightarrow> P (server (add_foreign_keys_loop ex fks st))"
proof (induction fks arbitrary: st)
  case Nil
  then show ?case by simp
next
  case (Cons fk fks)
  let ?st1 = "case ex (database st) (ALTER_TABLE_ADD_FOREIGN_KEY fk) (server st) of
          Inr srv \<Rightarrow> logger INFO ''Foreign key constraint added'' (st\<lparr>server := srv\<rparr>)
        | Inl e \<Rightarrow>
            if \<not> sublist ''Duplicate'' (str e)
            then logger WARNING (''Constraint warning: '' @ str e) st
            else st"
  have "P (server ?st1)"
  proof (cases "ex (database st) (ALTER_TABLE_ADD_FOREIGN_KEY fk) (server st)")
    case (Inl e)
    then show ?thesis using Cons.prems(2) by (simp add: logger_simps)
  next
    case (Inr srv)
    have "P srv" by (rule preservedD[OF Cons.prems(1) Cons.prems(2) Inr])
    then show ?thesis using Inr by (simp add: logger_simps)
  qed
  from Cons.IH[OF Cons.prems(1) this] show ?case by simp
qed

lemma seed_initial_data_preserves:
  assumes "preserved ex P" "P (server st)"
  shows "P (outcome_server (seed_initial_data ex st))"
proof -
  let ?st1 = "case ex (database st) seed_statement (server st) of
           Inr srv \<Rightarrow> logger INFO ''Default product config seeded'' (st\<lparr>server := srv\<rparr>)
         | Inl e \<Rightarrow> logger WARNING (''Product config already exists or error: '' @ str e) st"
  have 1: "P (server ?st1)"
  proof (cases "ex (database st) seed_statement (server st)")
    case (Inl e)
    then show ?thesis using assms(2) by (simp add: logger_simps)
  next
    case (Inr srv)
    have "P srv" by (rule preservedD[OF assms(1) assms(2) Inr])
    then show ?thesis using Inr by (simp add: logger_simps)
  qed
  show ?thesis
  proof (cases "ex (database ?st1) COMMIT (server ?st1)")
    case (Inl e)
    then show ?thesis using 1 by (simp add: seed_initial_data_def Let_def outcome_server_def)
  next
    case (Inr srv)
    have "P srv" by (rule preservedD[OF assms(1) 1 Inr])
    then show ?thesis using Inr by (simp add: seed_initial_data_def Let_def outcome_server_def)
  qed
qed

lemma create_schema_version_table_preserves:
  assumes "preserved ex P" "P (server st)"
  shows "P (outcome_server (create_schema_version_table ex st))"
proof (cases "ex (database st) (CREATE_TABLE_IF_NOT_EXISTS schema_migrations) (server st)")
  case (Inl e)
  then show ?thesis using assms(2)
    by (simp add: create_schema_version_table_def outcome_server_def)
next
  case 1: (Inr srv1)
  have p1: "P srv1" by (rule preservedD[OF assms(1) assms(2) 1])
  show ?thesis
  proof (cases "ex (database st) (INSERT IGNORE ''schema_migrations'' migration_rows) srv1")
    case (Inl e)
    then show ?thesis using 1 p1
      by (simp add: create_schema_version_table_def outcome_server_def)
  next
    case 2: (Inr srv2)
    have p2: "P srv2" by (rule preservedD[OF assms(1) p1 2])
    show ?thesis
    proof (cases "ex (database st) COMMIT srv2")
      case (Inl e)
      then show ?thesis using 1 2 p2
        by (simp add: create_schema_version_table_def outcome_server_def Let_def logger_simps)
    next
      case 3: (Inr srv3)
      have "P srv3" by (rule preservedD[OF assms(1) p2 3])
      then show ?thesis using 1 2 3
        by (simp add: create_schema_version_table_def outcome_server_def Let_def logger_simps)
    qed
  qed
qed

lemma steps_preserves:
  assumes "preserved ex P" "P (server st)"
  shows "P (outcome_server (steps ex n st))"
proof -
  let ?st0 = "logger INFO ''Connected to MySQL server'' st"
  have p0: "P (outcome_server (create_database ex n ?st0))"
    by (rule create_database_preserves[OF assms(1)]) (simp add: logger_simps assms(2))
  show ?thesis
  proof (cases "create_database ex n ?st0")
    case (Inl x)
    then show ?thesis using p0 by (simp add: steps_def)
  next
    case (Inr st1)
    have ps1: "P (server st1)" using p0 Inr by (simp add: outcome_server_def)
    show ?thesis
    proof (cases "ex (database st1) (USE n) (server st1)")
      case (Inl e)
      then show ?thesis using ps1 Inr by (simp add: steps_def outcome_server_def)
    next
      case use: (Inr srv)
    have psrv: "P srv" by (rule preservedD[OF assms(1) ps1 use])
    let ?st1' = "logger INFO ''Creating tables...'' (st1\<lparr>server := srv, database := Some n\<rparr>)"
    have "P (server ?st1')" using psrv by (simp add: logger_simps)
    then have p1: "P (outcome_server (create_tables ex ?st1'))"
      unfolding create_tables_def by (rule create_tables_loop_preserves[OF assms(1)])
    show ?thesis
    proof (cases "create_tables ex ?st1'")
      case (Inl x)
      then show ?thesis using p1 Inr use by (simp add: steps_def)
    next
      case st2: (Inr st2)
      let ?st2' = "logger INFO ''Seeding initial data...''
               (add_foreign_keys ex (logger INFO ''Adding foreign key constraints...'' st2))"
      have "P (server st2)" using p1 st2 by (simp add: outcome_server_def)
      then have "P (server (logger INFO ''Adding foreign key constraints...'' st2))"
        by (simp add: logger_simps)
      then have "P (server (add_foreign_keys ex (logger INFO ''Adding foreign key constraints...'' st2)))"
        unfolding add_foreign_keys_def by (rule add_foreign_keys_loop_preserves[OF assms(1)])
      then have "P (server ?st2')" by (simp add: logger_simps)
      then have p2: "P (outcome_server (seed_initial_data ex ?st2'))"
        by (rule seed_initial_data_preserves[OF assms(1)])
      show ?thesis
      proof (cases "seed_initial_data ex ?st2'")
        case (Inl x)
        then show ?thesis using p2 Inr use st2 by (simp add: steps_def)
      next
        case st3: (Inr st3)
        let ?st3' = "logger INFO ''Setting up schema versioning...'' st3"
        have "P (server ?st3')" using p2 st3 by (simp add: outcome_server_def logger_simps)
        then have p3: "P (outcome_server (create_schema_version_table ex ?st3'))"
          by (rule create_schema_version_table_preserves[OF assms(1)])
        show ?thesis using p3 Inr use st2 st3
          by (cases "create_schema_version_table ex ?st3'")
             (simp_all add: steps_def outcome_server_def logger_simps)
      qed
    qed
    qed
  qed
qed

lemma main_preserves:
  assumes "preserved ex P" "P (server st)"
  shows "P (server (snd (main ex n st)))"
  using steps_preserves[OF assms, of n]
  by (auto simp: main_def outcome_server_def logger_simps split: sum.splits)

lemma wf_empty_database: "wf_database empty_database"
  by (simp add: wf_database_def empty_database_def)

lemma execute_cases:
  assumes "execute now cur s srv = Inr srv'"
  shows "(\<exists>n. s = CREATE_DATABASE_IF_NOT_EXISTS n
            \<and> srv' = (case srv n of Some db \<Rightarrow> srv | None \<Rightarrow> srv(n \<mapsto> empty_database)))
         \<or> ((s = COMMIT \<or> (\<exists>d. s = USE d)) \<and> srv' = srv)
         \<or> (\<exists>d db db'. cur = Some d \<and> srv d = Some db \<and> exec now s db = Inr db'
               \<and> srv' = srv(d \<mapsto> db'))"
proof (cases cur)
  case None
  then show ?thesis using assms by (cases s) (auto split: option.splits)
next
  case (Some d)
  then show ?thesis using assms by (cases s) (auto split: option.splits sum.splits)
qed

lemma execute_preserves_wf: "preserved (execute now) wf_server"
  unfolding preserved_def
proof (intro allI impI)
  fix cur s srv srv'
  assume wf: "wf_server srv" and run: "execute now cur s srv = Inr srv'"
  from execute_cases[OF run] consider
      (db) n where "srv' = (case srv n of Some db \<Rightarrow> srv | None \<Rightarrow> srv(n \<mapsto> empty_database))"
    | (commit) "srv' = srv"
    | (stmt) d db db' where "srv d = Some db" "exec now s db = Inr db'" "srv' = srv(d \<mapsto> db')"
    by blast
  then show "wf_server srv'"
  proof cases
    case db
    then show ?thesis using wf wf_empty_database
      by (auto simp: wf_server_def split: option.splits if_splits)
  next
    case commit
    then show ?thesis using wf by simp
  next
    case stmt
    have "wf_database db" using wf stmt(1) by (auto simp: wf_server_def)
    then have "wf_database db'" using wf_exec[OF _ stmt(2)] by simp
    then show ?thesis using wf stmt(3) by (auto simp: wf_server_def)
  qed
qed

lemma wf_bootstrap: "wf_server srv \<Longrightarrow> wf_server (bootstrap now n srv)"
  unfolding bootstrap_def
  by (rule main_preserves[OF execute_preserves_wf]) (simp add: connect_def)

lemma wf_bootstrapped: "wf_database bootstrapped"
proof -
  have "wf_server (bootstrap 0 ''youtube_kol_db'' Map.empty)"
    by (rule wf_bootstrap) (simp add: wf_server_def)
  then show ?thesis
    unfolding bootstrapped_def using wf_empty_database
    by (auto simp: wf_server_def split: option.splits)
qed

lemma bootstrapped_defs:
  "table_def_of bootstrapped ''search_tasks'' = Some search_tasks
   \<and> table_def_of bootstrapped ''channels'' = Some channels
   \<and> table_def_of bootstrapped ''channel_video_stats'' = Some channel_video_stats
   \<and> table_def_of bootstrapped ''ai_analysis'' = Some ai_analysis
   \<and> db_fks bootstrapped = constraints"
  by code_simp

section \<open>The migration ledger\<close>

lemma ledger_keys: "unique_keys schema_migrations = [[Asc ''version'']]"
  by (simp add: unique_keys_def schema_migrations_def has_attr_def)

lemma ledger_insert_row:
  assumes "t_def t = schema_migrations"
  shows "\<exists>r. r ''version'' = VInt v \<and> r ''description'' = VStr s \<and>
           insert_row now IGNORE t [(''version'', VInt v), (''description'', VStr s)] =
             Inr (if has_version (t_rows t) v then t else t\<lparr>t_rows := t_rows t @ [r]\<rparr>)"
proof -
  let ?g = "[(''version'', VInt v), (''description'', VStr s)]"
  let ?r = "new_row now t ?g"
  have rv: "?r ''version'' = VInt v" and rd: "?r ''description'' = VStr s"
    using assms by (simp_all add: new_row_def find_column_def schema_migrations_def has_attr_def)
  have known: "known_columns (t_def t) (map fst ?g)"
    using assms by (simp add: known_columns_def find_column_def schema_migrations_def)
  have ok: "row_ok (t_def t) ?r"
    using assms rv by (simp add: row_ok_def schema_migrations_def not_null_def has_attr_def)
  have col: "collides (t_def t) ?r r' \<longleftrightarrow> r' ''version'' = VInt v" for r'
    using assms rv by (auto simp: collides_def ledger_keys same_key_def key_of_def)
  have ex: "list_ex (collides (t_def t) ?r) (t_rows t) = has_version (t_rows t) v"
    by (simp add: has_version_def list_ex_iff col)
  have auto_inc: "next_auto_increment t ?r = t_auto_increment t"
    using assms by (simp add: schema_migrations_def has_attr_def)
  have "insert_row now IGNORE t ?g = Inr (if has_version (t_rows t) v then t else t\<lparr>t_rows := t_rows t @ [?r]\<rparr>)"
    unfolding insert_row_def Let_def using known ok ex auto_inc by simp
  then show ?thesis using rv rd by blast
qed

lemma ledger_insert_step:
  assumes "t_def t = schema_migrations"
  shows "\<exists>t'. insert_row now IGNORE t [(''version'', VInt v), (''description'', VStr s)] = Inr t'
            \<and> ledger_step v t t'"
proof -
  obtain r where r: "r ''version'' = VInt v"
    "insert_row now IGNORE t [(''version'', VInt v), (''description'', VStr s)] =
       Inr (if has_version (t_rows t) v then t else t\<lparr>t_rows := t_rows t @ [r]\<rparr>)"
    using ledger_insert_row[OF assms] by blast
  show ?thesis using r by (auto simp: ledger_step_def has_version_def)
qed

lemma has_version_prefix: "has_version rows v \<Longrightarrow> prefix rows rows' \<Longrightarrow> has_version rows' v"
  by (auto simp: has_version_def list_ex_iff prefix_def)

lemma ledger_insert_rows:
  assumes "t_def t = schema_migrations"
  shows "\<exists>t'. insert_rows now IGNORE t migration_rows = Inr t'
           \<and> t_def t' = schema_migrations \<and> prefix (t_rows t) (t_rows t')
           \<and> has_version (t_rows t') 1 \<and> has_version (t_rows t') 2
           \<and> has_version (t_rows t') 3 \<and> has_version (t_rows t') 4
           \<and> (has_version (t_rows t) 1 \<and> has_version (t_rows t) 2
              \<and> has_version (t_rows t) 3 \<and> has_version (t_rows t) 4 \<longrightarrow> t' = t)"
proof -
  obtain t1 where 1: "insert_row now IGNORE t [(''version'', VInt 1), (''description'', VStr ''Initial schema'')] = Inr t1"
    "ledger_step 1 t t1" using ledger_insert_step[OF assms] by blast
  have d1: "t_def t1 = schema_migrations" using 1(2) assms by (simp add: ledger_step_def)
  obtain t2 where 2: "insert_row now IGNORE t1 [(''version'', VInt 2), (''description'', VStr ''Add incremental update support'')] = Inr t2"
    "ledger_step 2 t1 t2" using ledger_insert_step[OF d1] by blast
  have d2: "t_def t2 = schema_migrations" using 2(2) d1 by (simp add: ledger_step_def)
  obtain t3 where 3: "insert_row now IGNORE t2 [(''version'', VInt 3), (''description'', VStr ''Add AI provider field'')] = Inr t3"
    "ledger_step 3 t2 t3" using ledger_insert_step[OF d2] by blast
  have d3: "t_def t3 = schema_migrations" using 3(2) d2 by (simp add: ledger_step_def)
  obtain t4 where 4: "insert_row now IGNORE t3 [(''version'', VInt 4), (''description'', VStr ''Add language detection confidence'')] = Inr t4"
    "ledger_step 4 t3 t4" using ledger_insert_step[OF d3] by blast
  have d4: "t_def t4 = schema_migrations" using 4(2) d3 by (simp add: ledger_step_def)
  have run: "insert_rows now IGNORE t migration_rows = Inr t4"
    using 1(1) 2(1) 3(1) 4(1) by (simp add: migration_rows_def)
  have p1: "prefix (t_rows t) (t_rows t1)" and p2: "prefix (t_rows t1) (t_rows t2)"
    and p3: "prefix (t_rows t2) (t_rows t3)" and p4: "prefix (t_rows t3) (t_rows t4)"
    using 1(2) 2(2) 3(2) 4(2) by (simp_all add: ledger_step_def)
  have p: "prefix (t_rows t) (t_rows t4)" using p1 p2 p3 p4 by (meson prefix_order.order_trans)
  have h4: "has_version (t_rows t4) 4" using 4(2) by (simp add: ledger_step_def)
  have h3: "has_version (t_rows t4) 3"
    using 3(2) p4 has_version_prefix by (auto simp: ledger_step_def)
  have h2: "has_version (t_rows t4) 2"
    using 2(2) p3 p4 has_version_prefix by (meson ledger_step_def)
  have h1: "has_version (t_rows t4) 1"
    using 1(2) p2 p3 p4 has_version_prefix by (meson ledger_step_def)
  have same: "t4 = t" if "has_version (t_rows t) 1" "has_version (t_rows t) 2"
      "has_version (t_rows t) 3" "has_version (t_rows t) 4"
  proof -
    have "t1 = t" using 1(2) that(1) by (simp add: ledger_step_def)
    moreover have "t2 = t1" using 2(2) that(2) \<open>t1 = t\<close> by (simp add: ledger_step_def)
    moreover have "t3 = t2" using 3(2) that(3) \<open>t1 = t\<close> \<open>t2 = t1\<close> by (simp add: ledger_step_def)
    moreover have "t4 = t3" using 4(2) that(4) \<open>t1 = t\<close> \<open>t2 = t1\<close> \<open>t3 = t2\<close> by (simp add: ledger_step_def)
    ultimately show ?thesis by simp
  qed
  show ?thesis using run d4 p h1 h2 h3 h4 same by blast
qed

lemma version_count_le_1:
  "key_ok rows [Asc ''version''] \<Longrightarrow> version_count rows v \<le> 1"
  unfolding key_ok_def version_count_def key_of_def
proof (induction rows)
  case Nil then show ?case by simp
next
  case (Cons r rows)
  then show ?case by (auto split: if_splits simp: image_iff filter_empty_conv)
qed

lemma version_count_ledger:
  assumes "wf_table t" "t_def t = schema_migrations" "has_version (t_rows t) v"
  shows "version_count (t_rows t) v = 1"
proof -
  have "key_ok (t_rows t) [Asc ''version'']"
    using assms(1,2) by (simp add: wf_table_def keys_ok_def ledger_keys)
  then have "version_count (t_rows t) v \<le> 1" by (rule version_count_le_1)
  moreover have "version_count (t_rows t) v \<noteq> 0"
    using assms(3) by (auto simp: version_count_def has_version_def list_ex_iff filter_empty_conv)
  ultimately show ?thesis by simp
qed

lemma ledger_name: "td_name schema_migrations = ''schema_migrations''"
  by (simp add: schema_migrations_def)

lemma create_schema_version_table_run:
  assumes "database st = Some d" "server st d = Some db"
    and "db_tables (create_table db schema_migrations) ''schema_migrations'' = Some t"
    and "insert_rows now IGNORE t migration_rows = Inr t'"
  shows "create_schema_version_table (execute now) st =
           Inr (logger INFO ''Schema version tracking ready''
                 (st\<lparr>server := (server st)(d \<mapsto> (create_table db schema_migrations)
                    \<lparr>db_tables := (db_tables (create_table db schema_migrations))
                                    (''schema_migrations'' \<mapsto> t')\<rparr>)\<rparr>))"
  unfolding create_schema_version_table_def using assms
  by (simp add: Let_def logger_simps)

lemma create_table_ledger:
  assumes "wf_database db"
    "table_def_of db ''schema_migrations'' = None \<or> table_def_of db ''schema_migrations'' = Some schema_migrations"
  shows "\<exists>t. db_tables (create_table db schema_migrations) ''schema_migrations'' = Some t
           \<and> t_def t = schema_migrations \<and> wf_table t
           \<and> t_rows t = rows_of db ''schema_migrations''"
proof (cases "db_tables db ''schema_migrations''")
  case None
  then show ?thesis
    by (simp add: create_table_def ledger_name rows_of_def wf_table_empty)
next
  case (Some t)
  then have "t_def t = schema_migrations" using assms(2) by (simp add: table_def_of_def)
  moreover have "wf_table t" using assms(1) Some by (auto simp: wf_database_def)
  ultimately show ?thesis using Some
    by (simp add: create_table_def ledger_name rows_of_def)
qed

lemma migration_ledger:
  assumes "database st = Some d" "server st d = Some db" "wf_database db"
    "table_def_of db ''schema_migrations'' = None
       \<or> table_def_of db ''schema_migrations'' = Some schema_migrations"
  shows "\<exists>st' db'. create_schema_version_table (execute now) st = Inr st'
       \<and> database st' = Some d \<and> server st' d = Some db' \<and> wf_database db'
       \<and> table_def_of db' ''schema_migrations'' = Some schema_migrations
       \<and> version_count (rows_of db' ''schema_migrations'') 1 = 1
       \<and> version_count (rows_of db' ''schema_migrations'') 2 = 1
       \<and> version_count (rows_of db' ''schema_migrations'') 3 = 1
       \<and> version_count (rows_of db' ''schema_migrations'') 4 = 1
       \<and> prefix (rows_of db ''schema_migrations'') (rows_of db' ''schema_migrations'')
       \<and> (has_version (rows_of db ''schema_migrations'') 1
          \<and> has_version (rows_of db ''schema_migrations'') 2
          \<and> has_version (rows_of db ''schema_migrations'') 3
          \<and> has_version (rows_of db ''schema_migrations'') 4
          \<and> db_tables db ''schema_migrations'' \<noteq> None \<longrightarrow> server st' = server st)"
proof -
  let ?db1 = "create_table db schema_migrations"
  obtain t where t: "db_tables ?db1 ''schema_migrations'' = Some t" "t_def t = schema_migrations"
    "wf_table t" "t_rows t = rows_of db ''schema_migrations''"
    using create_table_ledger[OF assms(3,4)] by blast
  obtain t' where t': "insert_rows now IGNORE t migration_rows = Inr t'"
     "t_def t' = schema_migrations" "prefix (t_rows t) (t_rows t')"
     "has_version (t_rows t') 1" "has_version (t_rows t') 2"
     "has_version (t_rows t') 3" "has_version (t_rows t') 4"
     "has_version (t_rows t) 1 \<and> has_version (t_rows t) 2
              \<and> has_version (t_rows t) 3 \<and> has_version (t_rows t) 4 \<longrightarrow> t' = t"
    using ledger_insert_rows[OF t(2), of now] by blast
  let ?db2 = "?db1\<lparr>db_tables := (db_tables ?db1)(''schema_migrations'' \<mapsto> t')\<rparr>"
  let ?st' = "logger INFO ''Schema version tracking ready'' (st\<lparr>server := (server st)(d \<mapsto> ?db2)\<rparr>)"
  have run: "create_schema_version_table (execute now) st = Inr ?st'"
    by (rule create_schema_version_table_run[OF assms(1,2) t(1) t'(1)])
  have wf1: "wf_database ?db1" using wf_create_table[OF assms(3)] by simp
  have wft': "wf_table t'" using wf_table_insert_rows[OF t(3) t'(1)] by simp
  have wf2: "wf_database ?db2"
    using wf_table_replace[OF wf1 t(1) wft'] t'(2) t(2) by simp
  have rows2: "rows_of ?db2 ''schema_migrations'' = t_rows t'" by (simp add: rows_of_def)
  have counts: "version_count (t_rows t') v = 1" if "has_version (t_rows t') v" for v
    using version_count_ledger[OF wft' t'(2) that] .
  have same: "server ?st' = server st"
    if "has_version (rows_of db ''schema_migrations'') 1"
       "has_version (rows_of db ''schema_migrations'') 2"
       "has_version (rows_of db ''schema_migrations'') 3"
       "has_version (rows_of db ''schema_migrations'') 4"
       "db_tables db ''schema_migrations'' \<noteq> None"
  proof -
    have "t' = t" using t'(8) that t(4) by simp
    moreover have "?db1 = db" using that(5) by (auto simp: create_table_def ledger_name)
    ultimately have "?db2 = db" using t(1) by (simp add: map_upd_triv)
    then show ?thesis using assms(2) by (simp add: logger_simps map_upd_triv)
  qed
  have "database ?st' = Some d" using assms(1) by (simp add: logger_simps)
  moreover have "server ?st' d = Some ?db2" by (simp add: logger_simps)
  moreover have "table_def_of ?db2 ''schema_migrations'' = Some schema_migrations"
    using t'(2) by (simp add: table_def_of_def)
  ultimately show ?thesis
    using run wf2 rows2 counts t'(3-7) t(4) same by (intro exI[of _ ?st'] exI[of _ ?db2]) simp
qed

lemma has_version_count: "version_count rows v = 1 \<Longrightarrow> has_version rows v"
  by (auto simp: version_count_def has_version_def list_ex_iff filter_empty_conv
      dest!: arg_cong[where f = "\<lambda>n. n \<noteq> 0"])

lemma rerun_keeps_server:
  assumes "database st = Some d" "server st d = Some db" "wf_database db"
    "db_tables db ''schema_migrations'' \<noteq> None"
    "table_def_of db ''schema_migrations'' = Some schema_migrations"
    "has_version (rows_of db ''schema_migrations'') 1"
    "has_version (rows_of db ''schema_migrations'') 2"
    "has_version (rows_of db ''schema_migrations'') 3"
    "has_version (rows_of db ''schema_migrations'') 4"
  shows "\<exists>st'. rerun_schema_version_table nows st = Inr st' \<and> server st' = server st"
  using assms
proof (induction nows arbitrary: st)
  case Nil
  then show ?case by simp
next
  case (Cons now nows)
  obtain st1 where 1: "create_schema_version_table (execute now) st = Inr st1"
    "database st1 = Some d" "server st1 = server st"
    using migration_ledger[OF Cons.prems(1,2,3), of now] Cons.prems(4-9) by auto
  have "\<exists>st'. rerun_schema_version_table nows st1 = Inr st' \<and> server st' = server st1"
    using Cons.IH[OF 1(2)] 1(3) Cons.prems(2-9) by simp
  then show ?case using 1 by auto
qed

text \<open>
  C10. \<open>create_schema_version_table\<close> is idempotent on the ledger. Started on a
  well-formed database where \<open>schema_migrations\<close> is absent or has the definition of
  the script (primary key \<open>version\<close>), it returns normally; afterwards each of the
  versions 1 to 4 is in exactly one row, and the rows that were there before are
  still the first rows of the table, unchanged, so no description of a version
  already present is overwritten. Any number of further runs, at any server times,
  leave the server exactly as the first run left it.
\<close>

theorem schema_version_table_idempotent:
  assumes "database st = Some d" and "server st d = Some db" and "wf_database db"
    and "table_def_of db ''schema_migrations'' = None
         \<or> table_def_of db ''schema_migrations'' = Some schema_migrations"
  shows "\<exists>st' db'. create_schema_version_table (execute now) st = Inr st'
       \<and> server st' d = Some db'
       \<and> version_count (rows_of db' ''schema_migrations'') 1 = 1
       \<and> version_count (rows_of db' ''schema_migrations'') 2 = 1
       \<and> version_count (rows_of db' ''schema_migrations'') 3 = 1
       \<and> version_count (rows_of db' ''schema_migrations'') 4 = 1
       \<and> prefix (rows_of db ''schema_migrations'') (rows_of db' ''schema_migrations'')
       \<and> (\<exists>st''. rerun_schema_version_table nows st' = Inr st'' \<and> server st'' = server st')"
proof -
  obtain st' db' where 1: "create_schema_version_table (execute now) st = Inr st'"
      "database st' = Some d" "server st' d = Some db'" "wf_database db'"
      "table_def_of db' ''schema_migrations'' = Some schema_migrations"
      "version_count (rows_of db' ''schema_migrations'') 1 = 1"
      "version_count (rows_of db' ''schema_migrations'') 2 = 1"
      "version_count (rows_of db' ''schema_migrations'') 3 = 1"
      "version_count (rows_of db' ''schema_migrations'') 4 = 1"
      "prefix (rows_of db ''schema_migrations'') (rows_of db' ''schema_migrations'')"
    using migration_ledger[OF assms, of now] by blast
  have ex: "db_tables db' ''schema_migrations'' \<noteq> None"
    using 1(5) by (auto simp: table_def_of_def)
  have "\<exists>st''. rerun_schema_version_table nows st' = Inr st'' \<and> server st'' = server st'"
    using rerun_keeps_server[OF 1(2,3,4) ex 1(5)] 1(6-9) has_version_count by blast
  then show ?thesis using 1 by blast
qed

text \<open>
  The theorem on a server holding one empty database, with the first run at time 3
  and three further runs at times 5, 8 and 13.
\<close>

theorem schema_version_table_idempotent_witness:
  "\<exists>st' db'. create_schema_version_table (execute 3)
        \<lparr>server = [''youtube_kol_db'' \<mapsto> empty_database],
         database = Some ''youtube_kol_db'', logged = []\<rparr> = Inr st'
       \<and> server st' ''youtube_kol_db'' = Some db'
       \<and> version_count (rows_of db' ''schema_migrations'') 1 = 1
       \<and> version_count (rows_of db' ''schema_migrations'') 2 = 1
       \<and> version_count (rows_of db' ''schema_migrations'') 3 = 1
       \<and> version_count (rows_of db' ''schema_migrations'') 4 = 1
       \<and> prefix (rows_of empty_database ''schema_migrations'') (rows_of db' ''schema_migrations'')
       \<and> (\<exists>st''. rerun_schema_version_table [5, 8, 13] st' = Inr st'' \<and> server st'' = server st')"
proof -
  have wf: "wf_database empty_database"
    by (simp add: wf_database_def empty_database_def)
  have absent: "table_def_of empty_database ''schema_migrations'' = None
      \<or> table_def_of empty_database ''schema_migrations'' = Some schema_migrations"
    by (simp add: table_def_of_def empty_database_def)
  show ?thesis
    by (rule schema_version_table_idempotent[OF _ _ wf absent]) simp_all
qed

section \<open>Errors of the foreign key statements\<close>

































section \<open>One analysis per channel and task\<close>

lemma ai_analysis_keys:
  "unique_keys ai_analysis = [[Asc ''id''], [Asc ''channel_id'', Asc ''task_id'']]"
  by (simp add: unique_keys_def ai_analysis_def has_attr_def)

lemma ai_analysis_row_ok:
  "row_ok ai_analysis r \<Longrightarrow> r ''channel_id'' \<noteq> VNull \<and> r ''task_id'' \<noteq> VNull"
  by (simp add: row_ok_def ai_analysis_def not_null_def has_attr_def)

lemma ai_analysis_new_row:
  "t_def t = ai_analysis \<Longrightarrow> map_of g ''channel_id'' = Some c \<Longrightarrow> map_of g ''task_id'' = Some k
     \<Longrightarrow> new_row now t g ''channel_id'' = c \<and> new_row now t g ''task_id'' = k"
  by (simp add: new_row_def find_column_def ai_analysis_def has_attr_def)

lemma ai_analysis_distinct:
  assumes "wf_table t" "t_def t = ai_analysis"
  shows "distinct (map (\<lambda>r. (r ''channel_id'', r ''task_id'')) (t_rows t))"
proof -
  have "key_ok (t_rows t) [Asc ''channel_id'', Asc ''task_id'']"
    using assms by (simp add: wf_table_def keys_ok_def ai_analysis_keys)
  moreover have "\<forall>r \<in> set (t_rows t). r ''channel_id'' \<noteq> VNull \<and> r ''task_id'' \<noteq> VNull"
    using assms ai_analysis_row_ok by (auto simp: wf_table_def list_all_iff)
  ultimately show ?thesis using distinct_pairs by blast
qed

lemma wf_table_of:
  "wf_database db \<Longrightarrow> table_def_of db n = Some td
     \<Longrightarrow> \<exists>t. db_tables db n = Some t \<and> t_def t = td \<and> wf_table t \<and> rows_of db n = t_rows t"
  by (auto simp: wf_database_def table_def_of_def rows_of_def)

lemma table_def_of_run:
  "wf_database db \<Longrightarrow> table_def_of db n = Some td \<Longrightarrow> table_def_of (run script db) n = Some td"
  using wf_run[of db script] by (simp add: defs_kept_def)

lemma ai_analysis_reachable:
  assumes "wf_database db" "table_def_of db ''ai_analysis'' = Some ai_analysis"
  shows "distinct (map (\<lambda>r. (r ''channel_id'', r ''task_id'')) (rows_of (run script db) ''ai_analysis''))"
proof -
  have "wf_database (run script db)" using wf_run[OF assms(1)] by simp
  moreover have "table_def_of (run script db) ''ai_analysis'' = Some ai_analysis"
    using assms by (rule table_def_of_run)
  ultimately obtain t where "t_def t = ai_analysis" "wf_table t"
    "rows_of (run script db) ''ai_analysis'' = t_rows t"
    using wf_table_of by blast
  then show ?thesis using ai_analysis_distinct by simp
qed

lemma ai_analysis_race:
  assumes wf: "wf_database db" and td: "table_def_of db ''ai_analysis'' = Some ai_analysis"
    and first: "exec now (INSERT FAIL ''ai_analysis'' [g]) db = Inr db1"
    and g: "map_of g ''channel_id'' = Some c" "map_of g ''task_id'' = Some k"
    and g': "map_of g' ''channel_id'' = Some c" "map_of g' ''task_id'' = Some k"
  shows "(\<exists>e. exec now' (INSERT FAIL ''ai_analysis'' [g']) db1 = Inl e)
       \<and> (\<exists>r. select_where db1 ''ai_analysis'' [(''channel_id'', c), (''task_id'', k)] = [r]
              \<and> select_where (step (now', INSERT FAIL ''ai_analysis'' [g']) db1) ''ai_analysis''
                   [(''channel_id'', c), (''task_id'', k)] = [r])"
proof -
  obtain t where t: "db_tables db ''ai_analysis'' = Some t" "t_def t = ai_analysis"
    using wf_table_of[OF wf td] by blast
  obtain t1 where ins: "insert_row now FAIL t g = Inr t1"
    and db1: "db1 = db\<lparr>db_tables := (db_tables db)(''ai_analysis'' \<mapsto> t1)\<rparr>"
    using first t(1) by (auto simp: exec_insert_one split: sum.splits)
  let ?r = "new_row now t g"
  have rows1: "t_rows t1 = t_rows t @ [?r]" and d1: "t_def t1 = ai_analysis"
    and ok: "row_ok ai_analysis ?r"
    using insert_row_FAIL_Inr[OF ins] t(2) by simp_all
  have rc: "?r ''channel_id'' = c" "?r ''task_id'' = k"
    using ai_analysis_new_row[OF t(2) g] by simp_all
  have nn: "c \<noteq> VNull" "k \<noteq> VNull" using ai_analysis_row_ok[OF ok] rc by simp_all
  have t1: "db_tables db1 ''ai_analysis'' = Some t1" using db1 by simp
  let ?r' = "new_row now' t1 g'"
  have rc': "?r' ''channel_id'' = c" "?r' ''task_id'' = k"
    using ai_analysis_new_row[OF d1 g'] by simp_all
  have "collides ai_analysis ?r' ?r"
    using rc rc' nn by (simp add: collides_def ai_analysis_keys same_key_def key_of_def)
  then have "list_ex (collides (t_def t1) ?r') (t_rows t1)"
    using rows1 d1 by (simp add: list_ex_iff)
  then obtain e where e: "insert_row now' FAIL t1 g' = Inl e"
    using insert_row_collision_FAIL by blast
  then have second: "exec now' (INSERT FAIL ''ai_analysis'' [g']) db1 = Inl e"
    using t1 by (simp add: exec_insert_one)
  have wf1: "wf_database db1" using wf_exec[OF wf first] by simp
  then have "wf_table t1" using t1 by (auto simp: wf_database_def)
  then have dist: "distinct (map (\<lambda>r. (r ''channel_id'', r ''task_id'')) (t_rows t1))"
    using d1 by (rule ai_analysis_distinct)
  have "select_where db1 ''ai_analysis'' [(''channel_id'', c), (''task_id'', k)]
      = filter (\<lambda>y. (y ''channel_id'', y ''task_id'') = (?r ''channel_id'', ?r ''task_id'')) (t_rows t1)"
    using t1 nn rc by (simp add: select_where_def matches_def)
  also have "\<dots> = [?r]"
    using filter_distinct_one[OF dist, of ?r] rows1 by simp
  finally have sel: "select_where db1 ''ai_analysis'' [(''channel_id'', c), (''task_id'', k)] = [?r]" .
  have "step (now', INSERT FAIL ''ai_analysis'' [g']) db1 = db1"
    using second by (simp add: step_def)
  then show ?thesis using second sel by auto
qed

lemma exec_step: "\<not> isl (exec now s db) \<Longrightarrow> exec now s db = Inr (step (now, s) db)"
  by (cases "exec now s db") (simp_all add: step_def)

subsection \<open>The sample database\<close>

lemma sample_database_eval:
  "(\<lambda>db. (db_fks db,
          map (\<lambda>r. (r ''task_id'', r ''parent_task_id'')) (rows_of db ''search_tasks''),
          map (\<lambda>r. r ''channel_id'') (rows_of db ''channels''),
          map (\<lambda>r. (r ''id'', r ''channel_id'', r ''task_id'')) (rows_of db ''channel_video_stats''),
          map (\<lambda>r. (r ''id'', r ''channel_id'', r ''task_id'')) (rows_of db ''ai_analysis''),
          auto_increment_fresh db ''channel_video_stats'',
          auto_increment_in_range db ''channel_video_stats'')) sample_database
   = (constraints,
      [(VStr ''task-a'', VNull), (VStr ''task-b'', VStr ''task-a'')],
      [VStr ''UC1''],
      [(VInt 1, VStr ''UC1'', VStr ''task-a'')],
      [(VInt 1, VStr ''UC1'', VStr ''task-b'')],
      True, True)"
  by code_simp

lemma sample_database_rows:
  "db_fks sample_database = constraints"
  "map (\<lambda>r. (r ''task_id'', r ''parent_task_id'')) (rows_of sample_database ''search_tasks'')
     = [(VStr ''task-a'', VNull), (VStr ''task-b'', VStr ''task-a'')]"
  "map (\<lambda>r. r ''channel_id'') (rows_of sample_database ''channels'') = [VStr ''UC1'']"
  "map (\<lambda>r. (r ''id'', r ''channel_id'', r ''task_id'')) (rows_of sample_database ''channel_video_stats'')
     = [(VInt 1, VStr ''UC1'', VStr ''task-a'')]"
  "map (\<lambda>r. (r ''id'', r ''channel_id'', r ''task_id'')) (rows_of sample_database ''ai_analysis'')
     = [(VInt 1, VStr ''UC1'', VStr ''task-b'')]"
  "auto_increment_fresh sample_database ''channel_video_stats''"
  "auto_increment_in_range sample_database ''channel_video_stats''"
  using sample_database_eval by simp_all

lemma sample_database_parents:
  "list_ex (\<lambda>r. r ''task_id'' = VStr ''task-a'') (rows_of sample_database ''search_tasks'')"
  "list_ex (\<lambda>r. r ''channel_id'' = VStr ''UC1'') (rows_of sample_database ''channels'')"
proof -
  have "VStr ''task-a'' \<in> set (map (\<lambda>r. fst (r ''task_id'', r ''parent_task_id''))
          (rows_of sample_database ''search_tasks''))"
    unfolding map_map[symmetric, of fst "\<lambda>r. (r ''task_id'', r ''parent_task_id'')", unfolded comp_def]
    by (simp add: sample_database_rows(2))
  then show "list_ex (\<lambda>r. r ''task_id'' = VStr ''task-a'') (rows_of sample_database ''search_tasks'')"
    by (auto simp: list_ex_iff)
  have "VStr ''UC1'' \<in> set (map (\<lambda>r. r ''channel_id'') (rows_of sample_database ''channels''))"
    by (simp add: sample_database_rows(3))
  then show "list_ex (\<lambda>r. r ''channel_id'' = VStr ''UC1'') (rows_of sample_database ''channels'')"
    by (auto simp: list_ex_iff)
qed

lemma sample_database_defs:
  "wf_database sample_database"
  "table_def_of sample_database ''search_tasks'' = Some search_tasks"
  "table_def_of sample_database ''channels'' = Some channels"
  "table_def_of sample_database ''channel_video_stats'' = Some channel_video_stats"
  "table_def_of sample_database ''ai_analysis'' = Some ai_analysis"
  unfolding sample_database_def
  using table_def_of_run[OF wf_bootstrapped] bootstrapped_defs wf_run[OF wf_bootstrapped]
  by simp_all

text \<open>
  C2. \<open>ai_analysis\<close> carries the unique key \<open>uk_channel_task\<close> over
  \<open>(channel_id, task_id)\<close>. In every state that any script of statements reaches
  from a well-formed database holding the table as the script defines it, no two rows
  of the table share the pair. When one attempt to insert a row for a pair has been
  accepted, a second attempt for the same pair, at any time and with any other column
  values, is refused, and a lookup of the pair returns the same single row before and
  after the refused attempt: both callers see the one row of the winner.
\<close>

theorem ai_analysis_unique_pair:
  assumes "wf_database db" and "table_def_of db ''ai_analysis'' = Some ai_analysis"
  shows "UNIQUE_KEY ''uk_channel_task'' [Asc ''channel_id'', Asc ''task_id''] \<in> set (td_indexes ai_analysis)
       \<and> distinct (map (\<lambda>r. (r ''channel_id'', r ''task_id''))
                   (rows_of (run script db) ''ai_analysis''))
       \<and> (exec now (INSERT FAIL ''ai_analysis'' [g]) db = Inr db1
          \<and> map_of g ''channel_id'' = Some c \<and> map_of g ''task_id'' = Some k
          \<and> map_of g' ''channel_id'' = Some c \<and> map_of g' ''task_id'' = Some k
          \<longrightarrow> (\<exists>e. exec now' (INSERT FAIL ''ai_analysis'' [g']) db1 = Inl e)
            \<and> (\<exists>r. select_where db1 ''ai_analysis'' [(''channel_id'', c), (''task_id'', k)] = [r]
                  \<and> select_where (step (now', INSERT FAIL ''ai_analysis'' [g']) db1) ''ai_analysis''
                       [(''channel_id'', c), (''task_id'', k)] = [r]))"
proof -
  have "UNIQUE_KEY ''uk_channel_task'' [Asc ''channel_id'', Asc ''task_id''] \<in> set (td_indexes ai_analysis)"
    by (simp add: ai_analysis_def)
  moreover have "distinct (map (\<lambda>r. (r ''channel_id'', r ''task_id''))
                   (rows_of (run script db) ''ai_analysis''))"
    using assms by (rule ai_analysis_reachable)
  ultimately show ?thesis using ai_analysis_race[OF assms] by blast
qed

text \<open>
  The theorem on the sample database: two schedulers insert an analysis of channel
  \<open>UC1\<close> for task \<open>task-a\<close>, one for each AI provider, at times 6 and 7. Channel
  and task are there, so the server accepts the first insert as the model does.
\<close>

theorem ai_analysis_unique_pair_witness:
  "distinct (map (\<lambda>r. (r ''channel_id'', r ''task_id''))
      (rows_of (run [(6, INSERT FAIL ''ai_analysis''
                          [[(''channel_id'', VStr ''UC1''), (''task_id'', VStr ''task-a''),
                            (''analysis_detail'', VStr ''{}''), (''ai_provider'', VStr ''deepseek'')]]),
                     (7, INSERT FAIL ''ai_analysis''
                          [[(''channel_id'', VStr ''UC1''), (''task_id'', VStr ''task-a''),
                            (''analysis_detail'', VStr ''{}''), (''ai_provider'', VStr ''zhipu'')]])]
                 sample_database) ''ai_analysis''))
   \<and> (\<exists>e. exec 7 (INSERT FAIL ''ai_analysis''
                  [[(''channel_id'', VStr ''UC1''), (''task_id'', VStr ''task-a''),
                    (''analysis_detail'', VStr ''{}''), (''ai_provider'', VStr ''zhipu'')]])
              (step (6, INSERT FAIL ''ai_analysis''
                  [[(''channel_id'', VStr ''UC1''), (''task_id'', VStr ''task-a''),
                    (''analysis_detail'', VStr ''{}''), (''ai_provider'', VStr ''deepseek'')]])
                 sample_database) = Inl e)
   \<and> (\<exists>r. select_where
              (step (6, INSERT FAIL ''ai_analysis''
                  [[(''channel_id'', VStr ''UC1''), (''task_id'', VStr ''task-a''),
                    (''analysis_detail'', VStr ''{}''), (''ai_provider'', VStr ''deepseek'')]])
                 sample_database)
              ''ai_analysis'' [(''channel_id'', VStr ''UC1''), (''task_id'', VStr ''task-a'')] = [r]
          \<and> select_where
              (step (7, INSERT FAIL ''ai_analysis''
                  [[(''channel_id'', VStr ''UC1''), (''task_id'', VStr ''task-a''),
                    (''analysis_detail'', VStr ''{}''), (''ai_provider'', VStr ''zhipu'')]])
               (step (6, INSERT FAIL ''ai_analysis''
                  [[(''channel_id'', VStr ''UC1''), (''task_id'', VStr ''task-a''),
                    (''analysis_detail'', VStr ''{}''), (''ai_provider'', VStr ''deepseek'')]])
                 sample_database))
              ''ai_analysis'' [(''channel_id'', VStr ''UC1''), (''task_id'', VStr ''task-a'')] = [r])"
proof -
  let ?gA = "[(''channel_id'', VStr ''UC1''), (''task_id'', VStr ''task-a''),
              (''analysis_detail'', VStr ''{}''), (''ai_provider'', VStr ''deepseek'')]"
  let ?gB = "[(''channel_id'', VStr ''UC1''), (''task_id'', VStr ''task-a''),
              (''analysis_detail'', VStr ''{}''), (''ai_provider'', VStr ''zhipu'')]"
  have "\<not> isl (exec 6 (INSERT FAIL ''ai_analysis'' [?gA]) sample_database)"
    by code_simp
  then have first: "exec 6 (INSERT FAIL ''ai_analysis'' [?gA]) sample_database
      = Inr (step (6, INSERT FAIL ''ai_analysis'' [?gA]) sample_database)"
    by (rule exec_step)
  show ?thesis
    using ai_analysis_unique_pair[OF sample_database_defs(1,5),
        of "[(6, INSERT FAIL ''ai_analysis'' [?gA]), (7, INSERT FAIL ''ai_analysis'' [?gB])]"
           6 ?gA "step (6, INSERT FAIL ''ai_analysis'' [?gA]) sample_database"
           "VStr ''UC1''" "VStr ''task-a''" ?gB 7]
      first
    by simp
qed

section \<open>One row per channel\<close>

lemma channels_keys: "unique_keys channels = [[Asc ''id''], [Asc ''channel_id'']]"
  by (simp add: unique_keys_def channels_def has_attr_def)

lemma channels_row_ok: "row_ok channels r \<Longrightarrow> r ''channel_id'' \<noteq> VNull"
  by (simp add: row_ok_def channels_def not_null_def has_attr_def)

lemma channels_new_row:
  "t_def t = channels \<Longrightarrow> map_of g ''channel_id'' = Some c \<Longrightarrow> new_row now t g ''channel_id'' = c"
  by (simp add: new_row_def find_column_def channels_def has_attr_def)

lemma channels_set_columns:
  assumes "''channel_id'' \<notin> fst ` set as"
  shows "set_columns now channels as r ''channel_id'' = r ''channel_id''"
proof -
  have "\<forall>col \<in> set (td_columns channels).
          has_attr col ON_UPDATE_CURRENT_TIMESTAMP \<longrightarrow> col_name col \<noteq> ''channel_id''"
    by (simp add: channels_def has_attr_def)
  then have "stamp now as (td_columns channels) r' ''channel_id'' = r' ''channel_id''" for r'
    by (rule stamp_other)
  then show ?thesis using assign_other[OF assms] by (simp add: set_columns_def Let_def)
qed

lemma channels_distinct:
  assumes "wf_table t" "t_def t = channels"
  shows "distinct (map (\<lambda>r. r ''channel_id'') (t_rows t))"
proof -
  have "key_ok (t_rows t) [Asc ''channel_id'']"
    using assms by (simp add: wf_table_def keys_ok_def channels_keys)
  moreover have "\<forall>r \<in> set (t_rows t). r ''channel_id'' \<noteq> VNull"
    using assms channels_row_ok by (auto simp: wf_table_def list_all_iff)
  ultimately show ?thesis using distinct_single by blast
qed

lemma channels_reachable:
  assumes "wf_database db" "table_def_of db ''channels'' = Some channels"
  shows "distinct (map (\<lambda>r. r ''channel_id'') (rows_of (run script db) ''channels''))"
proof -
  have "wf_database (run script db)" using wf_run[OF assms(1)] by simp
  moreover have "table_def_of (run script db) ''channels'' = Some channels"
    using assms by (rule table_def_of_run)
  ultimately obtain t where "t_def t = channels" "wf_table t"
    "rows_of (run script db) ''channels'' = t_rows t"
    using wf_table_of by blast
  then show ?thesis using channels_distinct by simp
qed

lemma insert_row_collision_update:
  assumes "list_ex (collides (t_def t) (new_row now t g)) (t_rows t)"
    and "insert_row now mode t g = Inr t'"
  shows "t' = t \<or> (\<exists>as. mode = ON_DUPLICATE_KEY_UPDATE as
            \<and> t_rows t' = update_first (collides (t_def t) (new_row now t g))
                   (set_columns now (t_def t) as) (t_rows t))"
  using assms unfolding insert_row_def Let_def
  by (auto split: if_splits on_duplicate.splits)

lemma channels_second_encounter:
  assumes wf: "wf_database db" and td: "table_def_of db ''channels'' = Some channels"
    and seen: "list_ex (\<lambda>r. r ''channel_id'' = c) (rows_of db ''channels'')"
    and g: "map_of g ''channel_id'' = Some c"
  shows "(\<exists>e. exec now (INSERT FAIL ''channels'' [g]) db = Inl e)
       \<and> (exec now (INSERT mode ''channels'' [g]) db = Inr db'
            \<longrightarrow> length (rows_of db' ''channels'') = length (rows_of db ''channels''))
       \<and> (exec now (INSERT mode ''channels'' [g]) db = Inr db'
            \<and> (\<forall>as. mode = ON_DUPLICATE_KEY_UPDATE as \<longrightarrow> ''channel_id'' \<notin> fst ` set as)
            \<longrightarrow> map (\<lambda>r. r ''channel_id'') (rows_of db' ''channels'')
                = map (\<lambda>r. r ''channel_id'') (rows_of db ''channels''))"
proof -
  obtain t where t: "db_tables db ''channels'' = Some t" "t_def t = channels" "wf_table t"
    "rows_of db ''channels'' = t_rows t"
    using wf_table_of[OF wf td] by blast
  let ?r = "new_row now t g"
  obtain r0 where r0: "r0 \<in> set (t_rows t)" "r0 ''channel_id'' = c"
    using seen t(4) by (auto simp: list_ex_iff)
  have "row_ok channels r0" using t(2,3) r0(1) by (auto simp: wf_table_def list_all_iff)
  then have nn: "c \<noteq> VNull" using channels_row_ok r0(2) by blast
  have rc: "?r ''channel_id'' = c" using channels_new_row[OF t(2) g] .
  have "collides channels ?r r0"
    using rc r0(2) nn by (simp add: collides_def channels_keys same_key_def key_of_def)
  then have coll: "list_ex (collides (t_def t) ?r) (t_rows t)"
    using r0(1) t(2) by (auto simp: list_ex_iff)
  have a: "\<exists>e. exec now (INSERT FAIL ''channels'' [g]) db = Inl e"
    using insert_row_collision_FAIL[OF coll] t(1) by (auto simp: exec_insert_one)
  have b: "length (rows_of db' ''channels'') = length (rows_of db ''channels'')
        \<and> ((\<forall>as. mode = ON_DUPLICATE_KEY_UPDATE as \<longrightarrow> ''channel_id'' \<notin> fst ` set as)
            \<longrightarrow> map (\<lambda>r. r ''channel_id'') (rows_of db' ''channels'')
                = map (\<lambda>r. r ''channel_id'') (rows_of db ''channels''))"
    if run: "exec now (INSERT mode ''channels'' [g]) db = Inr db'"
  proof -
    obtain t' where ins: "insert_row now mode t g = Inr t'"
      and db': "db' = db\<lparr>db_tables := (db_tables db)(''channels'' \<mapsto> t')\<rparr>"
      using run t(1) by (auto simp: exec_insert_one split: sum.splits)
    have rows': "rows_of db' ''channels'' = t_rows t'" using db' by (simp add: rows_of_def)
    have len: "length (t_rows t') = length (t_rows t)"
      by (rule insert_row_collision_length[OF coll ins])
    have ids: "map (\<lambda>r. r ''channel_id'') (t_rows t') = map (\<lambda>r. r ''channel_id'') (t_rows t)"
      if free: "\<forall>as. mode = ON_DUPLICATE_KEY_UPDATE as \<longrightarrow> ''channel_id'' \<notin> fst ` set as"
    proof -
      from insert_row_collision_update[OF coll ins] show ?thesis
      proof
        assume "t' = t" then show ?thesis by simp
      next
        assume "\<exists>as. mode = ON_DUPLICATE_KEY_UPDATE as
            \<and> t_rows t' = update_first (collides (t_def t) ?r) (set_columns now (t_def t) as) (t_rows t)"
        then obtain as where as: "mode = ON_DUPLICATE_KEY_UPDATE as"
          "t_rows t' = update_first (collides (t_def t) ?r) (set_columns now (t_def t) as) (t_rows t)"
          by blast
        have "''channel_id'' \<notin> fst ` set as" using free as(1) by simp
        then have same: "\<And>x. set_columns now (t_def t) as x ''channel_id'' = x ''channel_id''"
          using channels_set_columns t(2) by simp
        show ?thesis
          unfolding as(2)
          using map_update_first[of "\<lambda>r. r ''channel_id''" "set_columns now (t_def t) as"
              "collides (t_def t) ?r" "t_rows t"] same
          by simp
      qed
    qed
    show ?thesis using rows' len ids t(4) by simp
  qed
  show ?thesis using a b by blast
qed

text \<open>
  C5. The column \<open>channel_id\<close> of \<open>channels\<close> is declared \<open>UNIQUE NOT NULL\<close>.
  In every state that any script of statements reaches from a well-formed database
  holding the table as the script defines it, no two rows share a \<open>channel_id\<close>.
  When a row for a channel is there, a plain \<open>INSERT\<close> of that channel is refused,
  and an insert in any mode that the server accepts leaves the number of rows as it
  was; with \<open>IGNORE\<close>, or with \<open>ON DUPLICATE KEY UPDATE\<close> assigning other columns,
  the list of channel identifiers is unchanged, so the second encounter updates the
  one row and adds none.
\<close>

theorem channel_id_unique:
  assumes "wf_database db" and "table_def_of db ''channels'' = Some channels"
  shows "Column ''channel_id'' (TVarchar 64) [UNIQUE, NOT_NULL] \<in> set (td_columns channels)
       \<and> distinct (map (\<lambda>r. r ''channel_id'') (rows_of (run script db) ''channels''))
       \<and> (list_ex (\<lambda>r. r ''channel_id'' = c) (rows_of db ''channels'')
          \<and> map_of g ''channel_id'' = Some c
          \<longrightarrow> (\<exists>e. exec now (INSERT FAIL ''channels'' [g]) db = Inl e)
            \<and> (exec now (INSERT mode ''channels'' [g]) db = Inr db'
                 \<longrightarrow> length (rows_of db' ''channels'') = length (rows_of db ''channels''))
            \<and> (exec now (INSERT mode ''channels'' [g]) db = Inr db'
                 \<and> (\<forall>as. mode = ON_DUPLICATE_KEY_UPDATE as \<longrightarrow> ''channel_id'' \<notin> fst ` set as)
                 \<longrightarrow> map (\<lambda>r. r ''channel_id'') (rows_of db' ''channels'')
                     = map (\<lambda>r. r ''channel_id'') (rows_of db ''channels'')))"
proof -
  have "Column ''channel_id'' (TVarchar 64) [UNIQUE, NOT_NULL] \<in> set (td_columns channels)"
    by (simp add: channels_def)
  moreover have "distinct (map (\<lambda>r. r ''channel_id'') (rows_of (run script db) ''channels''))"
    using assms by (rule channels_reachable)
  ultimately show ?thesis
    using channels_second_encounter[OF assms, of c g now mode db'] by blast
qed

text \<open>
  The theorem on the database the script creates: channel \<open>UC1\<close> is inserted at time
  1 and met again at time 2, with a new subscriber count.
\<close>

theorem channel_id_unique_witness:
  "distinct (map (\<lambda>r. r ''channel_id'')
      (rows_of (run [(2, INSERT (ON_DUPLICATE_KEY_UPDATE
                        [(''last_seen_at'', Now), (''subscriber_count'', Lit (VInt 1200))])
                      ''channels''
                      [[(''channel_id'', VStr ''UC1''), (''channel_title'', VStr ''PC Tips''),
                        (''channel_url'', VStr ''https://www.youtube.com/channel/UC1''),
                        (''subscriber_count'', VInt 1200),
                        (''first_discovered_at'', VTime 2), (''last_seen_at'', VTime 2)]])]
         (run [(1, INSERT FAIL ''channels''
                      [[(''channel_id'', VStr ''UC1''), (''channel_title'', VStr ''PC Tips''),
                        (''channel_url'', VStr ''https://www.youtube.com/channel/UC1''),
                        (''subscriber_count'', VInt 1000),
                        (''first_discovered_at'', VTime 1), (''last_seen_at'', VTime 1)]])]
            bootstrapped)) ''channels''))
   \<and> (\<exists>e. exec 2 (INSERT FAIL ''channels''
                      [[(''channel_id'', VStr ''UC1''), (''channel_title'', VStr ''PC Tips''),
                        (''channel_url'', VStr ''https://www.youtube.com/channel/UC1''),
                        (''subscriber_count'', VInt 1200),
                        (''first_discovered_at'', VTime 2), (''last_seen_at'', VTime 2)]])
         (run [(1, INSERT FAIL ''channels''
                      [[(''channel_id'', VStr ''UC1''), (''channel_title'', VStr ''PC Tips''),
                        (''channel_url'', VStr ''https://www.youtube.com/channel/UC1''),
                        (''subscriber_count'', VInt 1000),
                        (''first_discovered_at'', VTime 1), (''last_seen_at'', VTime 1)]])]
            bootstrapped) = Inl e)
   \<and> map (\<lambda>r. r ''channel_id'')
        (rows_of (step (2, INSERT (ON_DUPLICATE_KEY_UPDATE
                        [(''last_seen_at'', Now), (''subscriber_count'', Lit (VInt 1200))])
                      ''channels''
                      [[(''channel_id'', VStr ''UC1''), (''channel_title'', VStr ''PC Tips''),
                        (''channel_url'', VStr ''https://www.youtube.com/channel/UC1''),
                        (''subscriber_count'', VInt 1200),
                        (''first_discovered_at'', VTime 2), (''last_seen_at'', VTime 2)]])
         (run [(1, INSERT FAIL ''channels''
                      [[(''channel_id'', VStr ''UC1''), (''channel_title'', VStr ''PC Tips''),
                        (''channel_url'', VStr ''https://www.youtube.com/channel/UC1''),
                        (''subscriber_count'', VInt 1000),
                        (''first_discovered_at'', VTime 1), (''last_seen_at'', VTime 1)]])]
            bootstrapped)) ''channels'')
     = map (\<lambda>r. r ''channel_id'')
        (rows_of (run [(1, INSERT FAIL ''channels''
                      [[(''channel_id'', VStr ''UC1''), (''channel_title'', VStr ''PC Tips''),
                        (''channel_url'', VStr ''https://www.youtube.com/channel/UC1''),
                        (''subscriber_count'', VInt 1000),
                        (''first_discovered_at'', VTime 1), (''last_seen_at'', VTime 1)]])]
            bootstrapped) ''channels'')"
proof -
  let ?g1 = "[(''channel_id'', VStr ''UC1''), (''channel_title'', VStr ''PC Tips''),
              (''channel_url'', VStr ''https://www.youtube.com/channel/UC1''),
              (''subscriber_count'', VInt 1000),
              (''first_discovered_at'', VTime 1), (''last_seen_at'', VTime 1)]"
  let ?g2 = "[(''channel_id'', VStr ''UC1''), (''channel_title'', VStr ''PC Tips''),
              (''channel_url'', VStr ''https://www.youtube.com/channel/UC1''),
              (''subscriber_count'', VInt 1200),
              (''first_discovered_at'', VTime 2), (''last_seen_at'', VTime 2)]"
  let ?as = "[(''last_seen_at'', Now), (''subscriber_count'', Lit (VInt 1200))]"
  let ?db = "run [(1, INSERT FAIL ''channels'' [?g1])] bootstrapped"
  let ?up = "INSERT (ON_DUPLICATE_KEY_UPDATE ?as) ''channels'' [?g2]"
  have wf: "wf_database ?db" using wf_run[OF wf_bootstrapped] by simp
  have td: "table_def_of ?db ''channels'' = Some channels"
    using table_def_of_run[OF wf_bootstrapped] bootstrapped_defs by simp
  have seen: "list_ex (\<lambda>r. r ''channel_id'' = VStr ''UC1'') (rows_of ?db ''channels'')"
    by code_simp
  have "\<not> isl (exec 2 ?up ?db)" by code_simp
  then have up: "exec 2 ?up ?db = Inr (step (2, ?up) ?db)" by (rule exec_step)
  have free: "\<forall>as. ON_DUPLICATE_KEY_UPDATE ?as = ON_DUPLICATE_KEY_UPDATE as
                \<longrightarrow> ''channel_id'' \<notin> fst ` set as"
    by simp
  have g: "map_of ?g2 ''channel_id'' = Some (VStr ''UC1'')" by simp
  show ?thesis
    using channel_id_unique[OF wf td, of "[(2, ?up)]" "VStr ''UC1''" ?g2 2
        "ON_DUPLICATE_KEY_UPDATE ?as" "step (2, ?up) ?db"]
      seen up free g
    by simp
qed

section \<open>Snapshots per channel and task\<close>

lemma insert_row_auto_id:
  assumes keys: "unique_keys (t_def t) = [[Asc ''id'']]"
    and col: "find_column (t_def t) ''id'' = Some col" "has_attr col AUTO_INCREMENT"
    and gen: "generated (map_of g ''id'')"
    and known: "known_columns (t_def t) (map fst g)"
    and ok: "row_ok (t_def t) (new_row now t g)"
    and fresh: "list_all (\<lambda>r. r ''id'' \<noteq> VInt (t_auto_increment t)) (t_rows t)"
  shows "insert_row now mode t g =
           Inr (t\<lparr>t_rows := t_rows t @ [new_row now t g],
                  t_auto_increment := next_auto_increment t (new_row now t g)\<rparr>)"
proof -
  let ?r = "new_row now t g"
  have rid: "?r ''id'' = VInt (t_auto_increment t)"
    using col gen by (simp add: new_row_def)
  have "\<not> collides (t_def t) ?r r'" if "r' \<in> set (t_rows t)" for r'
    using that fresh rid by (auto simp: collides_def keys same_key_def key_of_def list_all_iff)
  then have "\<not> list_ex (collides (t_def t) ?r) (t_rows t)"
    by (simp add: list_ex_iff)
  then show ?thesis
    unfolding insert_row_def Let_def using known ok
    by (simp del: next_auto_increment.simps)
qed

lemma stats_keys: "unique_keys channel_video_stats = [[Asc ''id'']]"
  by (simp add: unique_keys_def channel_video_stats_def has_attr_def)

lemma stats_id_column:
  "find_column channel_video_stats ''id'' = Some (Column ''id'' TInt [PRIMARY_KEY, AUTO_INCREMENT])"
  by (simp add: find_column_def channel_video_stats_def)

lemma stats_new_row:
  assumes "t_def t = channel_video_stats" "generated (map_of g ''id'')"
    "map_of g ''channel_id'' = Some c" "map_of g ''task_id'' = Some k"
    "map_of g ''recent_videos'' = Some v"
  shows "new_row now t g ''channel_id'' = c" "new_row now t g ''task_id'' = k"
    "new_row now t g ''recent_videos'' = v" "new_row now t g ''id'' = VInt (t_auto_increment t)"
  using assms by (simp_all add: new_row_def find_column_def channel_video_stats_def has_attr_def)

lemma stats_row_ok:
  "r ''id'' \<noteq> VNull \<Longrightarrow> r ''channel_id'' \<noteq> VNull \<Longrightarrow> r ''task_id'' \<noteq> VNull
     \<Longrightarrow> r ''recent_videos'' \<noteq> VNull \<Longrightarrow> row_ok channel_video_stats r"
  by (simp add: row_ok_def channel_video_stats_def not_null_def has_attr_def)

lemma second_snapshot_eval:
  "(\<lambda>db. (isl (exec 6 (INSERT FAIL ''channel_video_stats''
                    [[(''channel_id'', VStr ''UC1''), (''task_id'', VStr ''task-a''),
                      (''recent_videos'', VStr ''[]'')]]) db),
          map (\<lambda>r. (r ''id'', r ''channel_id'', r ''task_id''))
            (rows_of (step (6, INSERT FAIL ''channel_video_stats''
                    [[(''channel_id'', VStr ''UC1''), (''task_id'', VStr ''task-a''),
                      (''recent_videos'', VStr ''[]'')]]) db) ''channel_video_stats''))) sample_database
   = (False, [(VInt 1, VStr ''UC1'', VStr ''task-a''), (VInt 2, VStr ''UC1'', VStr ''task-a'')])"
  by code_simp

text \<open>
  C1, as amended. The schema puts only the plain index \<open>idx_channel_task\<close> on
  \<open>(channel_id, task_id)\<close> of \<open>channel_video_stats\<close>; the one key the server
  enforces on the table is the primary key \<open>id\<close>. A snapshot for a channel and a
  task that both exist, inserted with a generated \<open>id\<close> and an empty list of recent
  videos, is accepted and stored as a further row, whatever rows the table holds for
  the same channel and task.
\<close>

theorem channel_video_stats_accepts_second_snapshot:
  assumes "table_def_of db ''channel_video_stats'' = Some channel_video_stats"
    and "auto_increment_fresh db ''channel_video_stats''"
    and "auto_increment_in_range db ''channel_video_stats''"
    and "list_ex (\<lambda>r. r ''channel_id'' = VStr c) (rows_of db ''channels'')"
    and "list_ex (\<lambda>r. r ''task_id'' = VStr k) (rows_of db ''search_tasks'')"
    and "length c \<le> 64" and "length k \<le> 64"
  shows "unique_keys channel_video_stats = [[Asc ''id'']]
       \<and> INDEX ''idx_channel_task'' [Asc ''channel_id'', Asc ''task_id'']
            \<in> set (td_indexes channel_video_stats)
       \<and> (\<exists>db'. exec now (INSERT FAIL ''channel_video_stats''
                    [[(''channel_id'', VStr c), (''task_id'', VStr k),
                      (''recent_videos'', VStr ''[]'')]]) db = Inr db'
              \<and> map (\<lambda>r. (r ''channel_id'', r ''task_id'')) (rows_of db' ''channel_video_stats'')
                 = map (\<lambda>r. (r ''channel_id'', r ''task_id'')) (rows_of db ''channel_video_stats'')
                   @ [(VStr c, VStr k)])"
proof -
  let ?g = "[(''channel_id'', VStr c), (''task_id'', VStr k), (''recent_videos'', VStr ''[]'')]"
  obtain t where t: "db_tables db ''channel_video_stats'' = Some t" "t_def t = channel_video_stats"
    using assms(1) by (auto simp: table_def_of_def)
  have fresh: "list_all (\<lambda>r. r ''id'' \<noteq> VInt (t_auto_increment t)) (t_rows t)"
    using assms(2) t(1) by (simp add: auto_increment_fresh_def)
  have gen: "generated (map_of ?g ''id'')" by (simp add: generated_def)
  have known: "known_columns channel_video_stats (map fst ?g)"
    by (simp add: known_columns_def find_column_def channel_video_stats_def)
  let ?r = "new_row now t ?g"
  have nr: "?r ''channel_id'' = VStr c" "?r ''task_id'' = VStr k"
    "?r ''recent_videos'' = VStr ''[]''" "?r ''id'' = VInt (t_auto_increment t)"
    using stats_new_row[OF t(2) gen, of "VStr c" "VStr k" "VStr ''[]''" now] by simp_all
  have ok: "row_ok (t_def t) ?r"
    unfolding t(2) using nr by (intro stats_row_ok) simp_all
  define n where "n = next_auto_increment t ?r"
  have "has_attr (Column ''id'' TInt [PRIMARY_KEY, AUTO_INCREMENT]) AUTO_INCREMENT"
    by (simp add: has_attr_def)
  then have ins: "insert_row now FAIL t ?g =
      Inr (t\<lparr>t_rows := t_rows t @ [?r], t_auto_increment := n\<rparr>)"
    unfolding n_def
    using insert_row_auto_id[of t "Column ''id'' TInt [PRIMARY_KEY, AUTO_INCREMENT]" ?g now FAIL]
      t(2) stats_keys stats_id_column gen known ok fresh
    by simp
  let ?db' = "db\<lparr>db_tables := (db_tables db)(''channel_video_stats'' \<mapsto>
                  t\<lparr>t_rows := t_rows t @ [?r], t_auto_increment := n\<rparr>)\<rparr>"
  have run: "exec now (INSERT FAIL ''channel_video_stats'' [?g]) db = Inr ?db'"
    using ins t(1) by (simp add: exec_insert_one)
  have rows: "map (\<lambda>r. (r ''channel_id'', r ''task_id'')) (rows_of ?db' ''channel_video_stats'')
      = map (\<lambda>r. (r ''channel_id'', r ''task_id'')) (rows_of db ''channel_video_stats'')
        @ [(VStr c, VStr k)]"
    using t(1) nr by (simp add: rows_of_def)
  have idx: "INDEX ''idx_channel_task'' [Asc ''channel_id'', Asc ''task_id'']
            \<in> set (td_indexes channel_video_stats)"
    by (simp add: channel_video_stats_def)
  show ?thesis using stats_keys idx run rows by blast
qed

text \<open>
  C1 as stated fails on the sample database, which holds channel \<open>UC1\<close>, task
  \<open>task-a\<close> and one snapshot for the pair: the snapshot recorded again is accepted
  and leaves two rows for the pair, with the identifiers 1 and 2.
\<close>

theorem channel_video_stats_duplicate_counterexample:
  "db_fks sample_database = constraints
   \<and> map (\<lambda>r. r ''channel_id'') (rows_of sample_database ''channels'') = [VStr ''UC1'']
   \<and> map (\<lambda>r. (r ''task_id'', r ''parent_task_id'')) (rows_of sample_database ''search_tasks'')
       = [(VStr ''task-a'', VNull), (VStr ''task-b'', VStr ''task-a'')]
   \<and> map (\<lambda>r. (r ''id'', r ''channel_id'', r ''task_id''))
        (rows_of sample_database ''channel_video_stats'')
       = [(VInt 1, VStr ''UC1'', VStr ''task-a'')]
   \<and> \<not> isl (exec 6 (INSERT FAIL ''channel_video_stats''
                [[(''channel_id'', VStr ''UC1''), (''task_id'', VStr ''task-a''),
                  (''recent_videos'', VStr ''[]'')]]) sample_database)
   \<and> map (\<lambda>r. (r ''id'', r ''channel_id'', r ''task_id''))
        (rows_of (step (6, INSERT FAIL ''channel_video_stats''
                [[(''channel_id'', VStr ''UC1''), (''task_id'', VStr ''task-a''),
                  (''recent_videos'', VStr ''[]'')]]) sample_database) ''channel_video_stats'')
       = [(VInt 1, VStr ''UC1'', VStr ''task-a''), (VInt 2, VStr ''UC1'', VStr ''task-a'')]"
  using sample_database_rows(1,2,3,4) second_snapshot_eval by simp

text \<open>The amended statement on that database, at the second recording.\<close>

theorem channel_video_stats_accepts_second_snapshot_witness:
  "\<exists>db'. exec 6 (INSERT FAIL ''channel_video_stats''
                [[(''channel_id'', VStr ''UC1''), (''task_id'', VStr ''task-a''),
                  (''recent_videos'', VStr ''[]'')]]) sample_database = Inr db'
     \<and> map (\<lambda>r. (r ''channel_id'', r ''task_id'')) (rows_of db' ''channel_video_stats'')
       = map (\<lambda>r. (r ''channel_id'', r ''task_id'')) (rows_of sample_database ''channel_video_stats'')
         @ [(VStr ''UC1'', VStr ''task-a'')]"
  using channel_video_stats_accepts_second_snapshot[OF sample_database_defs(4)
      sample_database_rows(6,7) sample_database_parents(2,1), of 6]
  by simp

section \<open>The seed row under re-runs\<close>

lemma product_config_keys: "unique_keys product_config = [[Asc ''id'']]"
  by (simp add: unique_keys_def product_config_def has_attr_def)

lemma product_config_id_column:
  "find_column product_config ''id'' = Some (Column ''id'' TInt [PRIMARY_KEY, AUTO_INCREMENT])"
  by (simp add: find_column_def product_config_def)

lemma seed_row_known: "known_columns product_config (map fst seed_row)"
  by (simp add: known_columns_def find_column_def product_config_def seed_row_def)

lemma seed_row_ok:
  assumes "t_def t = product_config"
  shows "row_ok product_config (new_row now t seed_row)"
proof -
  have "new_row now t seed_row ''id'' = VInt (t_auto_increment t)"
    using assms
    by (simp add: new_row_def find_column_def product_config_def has_attr_def seed_row_def generated_def)
  moreover have "new_row now t seed_row ''product_name'' = VStr ''WMaster Cleanup''"
    using assms
    by (simp add: new_row_def find_column_def product_config_def has_attr_def seed_row_def)
  ultimately show ?thesis
    by (simp add: row_ok_def product_config_def not_null_def has_attr_def)
qed

lemma seed_initial_data_adds_row:
  assumes "database st = Some d" and "server st d = Some db"
    and "table_def_of db ''product_config'' = Some product_config"
    and "auto_increment_fresh db ''product_config''"
  shows "\<exists>st' db'. seed_initial_data (execute now) st = Inr st' \<and> server st' d = Some db'
           \<and> length (rows_of db' ''product_config'') = Suc (length (rows_of db ''product_config''))"
proof -
  obtain t where t: "db_tables db ''product_config'' = Some t" "t_def t = product_config"
    using assms(3) by (auto simp: table_def_of_def)
  have fresh: "list_all (\<lambda>r. r ''id'' \<noteq> VInt (t_auto_increment t)) (t_rows t)"
    using assms(4) t(1) by (simp add: auto_increment_fresh_def)
  let ?r = "new_row now t seed_row"
  let ?t' = "t\<lparr>t_rows := t_rows t @ [?r], t_auto_increment := next_auto_increment t ?r\<rparr>"
  have attr: "has_attr (Column ''id'' TInt [PRIMARY_KEY, AUTO_INCREMENT]) AUTO_INCREMENT"
    by (simp add: has_attr_def)
  have gen: "generated (map_of seed_row ''id'')" by (simp add: generated_def seed_row_def)
  have ins: "insert_row now (ON_DUPLICATE_KEY_UPDATE [(''updated_at'', Now)]) t seed_row = Inr ?t'"
    using insert_row_auto_id[of t "Column ''id'' TInt [PRIMARY_KEY, AUTO_INCREMENT]" seed_row now
        "ON_DUPLICATE_KEY_UPDATE [(''updated_at'', Now)]"]
      t(2) product_config_keys product_config_id_column attr gen seed_row_known
      seed_row_ok[OF t(2)] fresh
    by simp
  let ?db' = "db\<lparr>db_tables := (db_tables db)(''product_config'' \<mapsto> ?t')\<rparr>"
  have ex: "exec now seed_statement db = Inr ?db'"
    using ins t(1) by (simp add: seed_statement_def exec_insert_one)
  have "seed_initial_data (execute now) st =
      Inr (logger INFO ''Default product config seeded'' (st\<lparr>server := (server st)(d \<mapsto> ?db')\<rparr>))"
    using ex assms(1,2)
    by (simp add: seed_initial_data_def Let_def seed_statement_def logger_simps)
  moreover have "length (rows_of ?db' ''product_config'') = Suc (length (rows_of db ''product_config''))"
    using t(1) by (simp add: rows_of_def)
  ultimately show ?thesis by (simp add: logger_simps)
qed

text \<open>
  C3 at two runs against a server that held no database: both runs end with exit
  status 0; \<open>product_config\<close> holds one seed row after the first and two after the
  second. The \<open>ON DUPLICATE KEY UPDATE\<close> clause of the seed statement has no key to
  fire on, since the statement gives no \<open>id\<close> and the table has no other key.
\<close>

theorem seed_row_inserted_again:
  "fst (main (execute 0) ''youtube_kol_db'' (connect Map.empty)) = 0
   \<and> fst (main (execute 7) ''youtube_kol_db''
            (connect (bootstrap 0 ''youtube_kol_db'' Map.empty))) = 0
   \<and> map_option (\<lambda>db. map (\<lambda>r. (r ''id'', r ''product_name'')) (rows_of db ''product_config''))
        (bootstrap 0 ''youtube_kol_db'' Map.empty ''youtube_kol_db'')
      = Some [(VInt 1, VStr ''WMaster Cleanup'')]
   \<and> map_option (\<lambda>db. map (\<lambda>r. (r ''id'', r ''product_name'')) (rows_of db ''product_config''))
        (bootstrap 7 ''youtube_kol_db'' (bootstrap 0 ''youtube_kol_db'' Map.empty)
           ''youtube_kol_db'')
      = Some [(VInt 1, VStr ''WMaster Cleanup''), (VInt 2, VStr ''WMaster Cleanup'')]"
  by code_simp

section \<open>Deleting tasks and channels\<close>

lemma rows_of_tab_rows: "rows_of db n = tab_rows (db_tables db) n"
  by (simp add: rows_of_def tab_rows_def)

lemma tab_rows_upd_rows:
  "f [] = [] \<Longrightarrow> tab_rows (upd_rows f n tabs) n' = (if n' = n then f (tab_rows tabs n) else tab_rows tabs n')"
  by (auto simp: tab_rows_def upd_rows_def split: option.splits)

lemma upd_rows_other: "n' \<noteq> n \<Longrightarrow> upd_rows f n tabs n' = tabs n'"
  by (auto simp: upd_rows_def split: option.splits)

lemma upd_rows_id: "(\<And>t. tabs n = Some t \<Longrightarrow> f (t_rows t) = t_rows t) \<Longrightarrow> upd_rows f n tabs = tabs"
  by (auto simp: upd_rows_def split: option.splits)

lemma cascade_skip:
  "fk_ref_table fk \<noteq> t \<Longrightarrow> cascade n all (fk # fks) t dead tabs = cascade n all fks t dead tabs"
  by simp

lemma cascade_leaf:
  "\<forall>f \<in> set fks. fk_ref_table f \<noteq> t \<Longrightarrow> cascade n all fks t dead tabs = Inr tabs"
  by (induction fks) simp_all

lemma map_set_null_none:
  "filter (refers fk dead) rows = [] \<Longrightarrow> map (set_null fk dead) rows = rows"
  by (induction rows) (auto simp: set_null_def split: if_splits)

lemma filter_not_refers_none:
  "filter (refers fk dead) rows = [] \<Longrightarrow> filter (\<lambda>r. \<not> refers fk dead r) rows = rows"
  by (induction rows) (auto split: if_splits)

lemma cascade_set_null:
  assumes "fk_ref_table fk = t" "fk_on_delete fk = SET_NULL"
  shows "cascade n all (fk # fks) t dead tabs =
           cascade n all fks t dead (upd_rows (map (set_null fk dead)) (fk_table fk) tabs)"
proof (cases "tabs (fk_table fk)")
  case None
  then show ?thesis using assms by (simp add: upd_rows_def)
next
  case (Some child)
  show ?thesis
  proof (cases "filter (refers fk dead) (t_rows child)")
    case Nil
    then have "upd_rows (map (set_null fk dead)) (fk_table fk) tabs = tabs"
      using Some by (intro upd_rows_id) (simp add: map_set_null_none)
    then show ?thesis using assms Some Nil by simp
  next
    case (Cons h hs)
    then show ?thesis using assms Some by (simp add: upd_rows_def)
  qed
qed

lemma cascade_delete_leaf:
  assumes "fk_ref_table fk = t" "fk_on_delete fk = CASCADE" "0 < n"
    and leaf: "\<forall>f \<in> set all. fk_ref_table f \<noteq> fk_table fk"
  shows "cascade n all (fk # fks) t dead tabs =
           cascade n all fks t dead
             (upd_rows (filter (\<lambda>r. \<not> refers fk dead r)) (fk_table fk) tabs)"
proof (cases "tabs (fk_table fk)")
  case None
  then show ?thesis using assms by (simp add: upd_rows_def)
next
  case (Some child)
  obtain m where n: "n = Suc m" using assms(3) by (cases n) auto
  show ?thesis
  proof (cases "filter (refers fk dead) (t_rows child)")
    case Nil
    then have "upd_rows (filter (\<lambda>r. \<not> refers fk dead r)) (fk_table fk) tabs = tabs"
      using Some by (intro upd_rows_id) (simp add: filter_not_refers_none)
    then show ?thesis using assms Some Nil by simp
  next
    case (Cons h hs)
    then show ?thesis using assms(1,2) Some n cascade_leaf[OF leaf]
      by (simp add: upd_rows_def)
  qed
qed

lemma refers_matches:
  assumes "v \<noteq> VNull" "list_ex (\<lambda>d. d c = v) rows" "fk_ref_column fk = c"
  shows "refers fk (filter (matches c v) rows) r = (r (fk_column fk) = v)"
proof -
  have "set (map (\<lambda>d. d c) (filter (matches c v) rows)) = {v}"
    using assms(1,2) by (auto simp: matches_def list_ex_iff)
  then show ?thesis using assms(1,3) by (auto simp: refers_def)
qed

lemma constraints_leaf_stats: "\<forall>f \<in> set constraints. fk_ref_table f \<noteq> ''channel_video_stats''"
  by (simp add: constraints_def)

lemma constraints_leaf_analysis: "\<forall>f \<in> set constraints. fk_ref_table f \<noteq> ''ai_analysis''"
  by (simp add: constraints_def)

lemma cascade_constraints_task:
  "cascade 15 constraints constraints ''search_tasks'' dead tabs =
     Inr (upd_rows (filter (\<lambda>r. \<not> refers (constraints ! 4) dead r)) ''ai_analysis''
           (upd_rows (filter (\<lambda>r. \<not> refers (constraints ! 2) dead r)) ''channel_video_stats''
             (upd_rows (map (set_null (constraints ! 0) dead)) ''search_tasks'' tabs)))"
proof -
  have c: "constraints = [constraints ! 0, constraints ! 1, constraints ! 2, constraints ! 3, constraints ! 4]"
    by (simp add: constraints_def)
  have f0: "fk_ref_table (constraints ! 0) = ''search_tasks''" "fk_on_delete (constraints ! 0) = SET_NULL"
    "fk_table (constraints ! 0) = ''search_tasks''"
    and f1: "fk_ref_table (constraints ! 1) \<noteq> ''search_tasks''"
    and f2: "fk_ref_table (constraints ! 2) = ''search_tasks''" "fk_on_delete (constraints ! 2) = CASCADE"
    "fk_table (constraints ! 2) = ''channel_video_stats''"
    and f3: "fk_ref_table (constraints ! 3) \<noteq> ''search_tasks''"
    and f4: "fk_ref_table (constraints ! 4) = ''search_tasks''" "fk_on_delete (constraints ! 4) = CASCADE"
    "fk_table (constraints ! 4) = ''ai_analysis''"
    by (simp_all add: constraints_def)
  have l2: "\<forall>f \<in> set constraints. fk_ref_table f \<noteq> fk_table (constraints ! 2)"
    using constraints_leaf_stats f2(3) by simp
  have l4: "\<forall>f \<in> set constraints. fk_ref_table f \<noteq> fk_table (constraints ! 4)"
    using constraints_leaf_analysis f4(3) by simp
  have "cascade 15 constraints constraints ''search_tasks'' dead tabs
      = cascade 15 constraints [constraints ! 0, constraints ! 1, constraints ! 2, constraints ! 3, constraints ! 4]
          ''search_tasks'' dead tabs"
    using c by simp
  also have "\<dots> = cascade 15 constraints [constraints ! 1, constraints ! 2, constraints ! 3, constraints ! 4]
          ''search_tasks'' dead (upd_rows (map (set_null (constraints ! 0) dead)) ''search_tasks'' tabs)"
    using cascade_set_null[OF f0(1,2)] f0(3) by simp
  also have "\<dots> = cascade 15 constraints [constraints ! 2, constraints ! 3, constraints ! 4]
          ''search_tasks'' dead (upd_rows (map (set_null (constraints ! 0) dead)) ''search_tasks'' tabs)"
    by (rule cascade_skip[OF f1])
  also have "\<dots> = cascade 15 constraints [constraints ! 3, constraints ! 4]
          ''search_tasks'' dead
          (upd_rows (filter (\<lambda>r. \<not> refers (constraints ! 2) dead r)) ''channel_video_stats''
             (upd_rows (map (set_null (constraints ! 0) dead)) ''search_tasks'' tabs))"
    using cascade_delete_leaf[OF f2(1,2) _ l2, of 15] f2(3) by simp
  also have "\<dots> = cascade 15 constraints [constraints ! 4]
          ''search_tasks'' dead
          (upd_rows (filter (\<lambda>r. \<not> refers (constraints ! 2) dead r)) ''channel_video_stats''
             (upd_rows (map (set_null (constraints ! 0) dead)) ''search_tasks'' tabs))"
    by (rule cascade_skip[OF f3])
  also have "\<dots> = cascade 15 constraints []
          ''search_tasks'' dead
          (upd_rows (filter (\<lambda>r. \<not> refers (constraints ! 4) dead r)) ''ai_analysis''
          (upd_rows (filter (\<lambda>r. \<not> refers (constraints ! 2) dead r)) ''channel_video_stats''
             (upd_rows (map (set_null (constraints ! 0) dead)) ''search_tasks'' tabs)))"
    using cascade_delete_leaf[OF f4(1,2) _ l4, of 15] f4(3) by simp
  finally show ?thesis by simp
qed

lemma cascade_constraints_channel:
  "cascade 15 constraints constraints ''channels'' dead tabs =
     Inr (upd_rows (filter (\<lambda>r. \<not> refers (constraints ! 3) dead r)) ''ai_analysis''
           (upd_rows (filter (\<lambda>r. \<not> refers (constraints ! 1) dead r)) ''channel_video_stats'' tabs))"
proof -
  have c: "constraints = [constraints ! 0, constraints ! 1, constraints ! 2, constraints ! 3, constraints ! 4]"
    by (simp add: constraints_def)
  have f0: "fk_ref_table (constraints ! 0) \<noteq> ''channels''"
    and f1: "fk_ref_table (constraints ! 1) = ''channels''" "fk_on_delete (constraints ! 1) = CASCADE"
    "fk_table (constraints ! 1) = ''channel_video_stats''"
    and f2: "fk_ref_table (constraints ! 2) \<noteq> ''channels''"
    and f3: "fk_ref_table (constraints ! 3) = ''channels''" "fk_on_delete (constraints ! 3) = CASCADE"
    "fk_table (constraints ! 3) = ''ai_analysis''"
    and f4: "fk_ref_table (constraints ! 4) \<noteq> ''channels''"
    by (simp_all add: constraints_def)
  have l1: "\<forall>f \<in> set constraints. fk_ref_table f \<noteq> fk_table (constraints ! 1)"
    using constraints_leaf_stats f1(3) by simp
  have l3: "\<forall>f \<in> set constraints. fk_ref_table f \<noteq> fk_table (constraints ! 3)"
    using constraints_leaf_analysis f3(3) by simp
  have "cascade 15 constraints constraints ''channels'' dead tabs
      = cascade 15 constraints [constraints ! 0, constraints ! 1, constraints ! 2, constraints ! 3, constraints ! 4]
          ''channels'' dead tabs"
    using c by simp
  also have "\<dots> = cascade 15 constraints [constraints ! 1, constraints ! 2, constraints ! 3, constraints ! 4]
          ''channels'' dead tabs"
    by (rule cascade_skip[OF f0])
  also have "\<dots> = cascade 15 constraints [constraints ! 2, constraints ! 3, constraints ! 4]
          ''channels'' dead
          (upd_rows (filter (\<lambda>r. \<not> refers (constraints ! 1) dead r)) ''channel_video_stats'' tabs)"
    using cascade_delete_leaf[OF f1(1,2) _ l1, of 15] f1(3) by simp
  also have "\<dots> = cascade 15 constraints [constraints ! 3, constraints ! 4]
          ''channels'' dead
          (upd_rows (filter (\<lambda>r. \<not> refers (constraints ! 1) dead r)) ''channel_video_stats'' tabs)"
    by (rule cascade_skip[OF f2])
  also have "\<dots> = cascade 15 constraints [constraints ! 4]
          ''channels'' dead
          (upd_rows (filter (\<lambda>r. \<not> refers (constraints ! 3) dead r)) ''ai_analysis''
          (upd_rows (filter (\<lambda>r. \<not> refers (constraints ! 1) dead r)) ''channel_video_stats'' tabs))"
    using cascade_delete_leaf[OF f3(1,2) _ l3, of 15] f3(3) by simp
  also have "\<dots> = cascade 15 constraints []
          ''channels'' dead
          (upd_rows (filter (\<lambda>r. \<not> refers (constraints ! 3) dead r)) ''ai_analysis''
          (upd_rows (filter (\<lambda>r. \<not> refers (constraints ! 1) dead r)) ''channel_video_stats'' tabs))"
    by (rule cascade_skip[OF f4])
  finally show ?thesis by simp
qed

lemma fk_columns:
  "fk_column (constraints ! 0) = ''parent_task_id''" "fk_ref_column (constraints ! 0) = ''task_id''"
  "fk_column (constraints ! 1) = ''channel_id''" "fk_ref_column (constraints ! 1) = ''channel_id''"
  "fk_column (constraints ! 2) = ''task_id''" "fk_ref_column (constraints ! 2) = ''task_id''"
  "fk_column (constraints ! 3) = ''channel_id''" "fk_ref_column (constraints ! 3) = ''channel_id''"
  "fk_column (constraints ! 4) = ''task_id''" "fk_ref_column (constraints ! 4) = ''task_id''"
  by (simp_all add: constraints_def)

lemma delete_rows_run:
  assumes "db_tables db t = Some tb" "known_columns (t_def tb) [c]"
    and "cascade 15 (db_fks db) (db_fks db) t (filter (matches c v) (t_rows tb))
           (upd_rows (filter (\<lambda>r. \<not> matches c v r)) t (db_tables db)) = Inr tabs"
  shows "exec now (DELETE t c v) db = Inr (db\<lparr>db_tables := tabs\<rparr>)"
  using assms by (simp add: delete_rows_def upd_rows_def)

lemma delete_task:
  assumes fks: "db_fks db = constraints"
    and td: "table_def_of db ''search_tasks'' = Some search_tasks"
    and tid: "tid \<noteq> VNull" "list_ex (\<lambda>r. r ''task_id'' = tid) (rows_of db ''search_tasks'')"
  shows "\<exists>db'. exec now (DELETE ''search_tasks'' ''task_id'' tid) db = Inr db'
       \<and> rows_of db' ''search_tasks'' =
           map (\<lambda>r. if r ''parent_task_id'' = tid then r(''parent_task_id'' := VNull) else r)
             (filter (\<lambda>r. r ''task_id'' \<noteq> tid) (rows_of db ''search_tasks''))
       \<and> rows_of db' ''channel_video_stats'' =
           filter (\<lambda>r. r ''task_id'' \<noteq> tid) (rows_of db ''channel_video_stats'')
       \<and> rows_of db' ''ai_analysis'' =
           filter (\<lambda>r. r ''task_id'' \<noteq> tid) (rows_of db ''ai_analysis'')
       \<and> (\<forall>n. n \<noteq> ''search_tasks'' \<and> n \<noteq> ''channel_video_stats'' \<and> n \<noteq> ''ai_analysis''
              \<longrightarrow> db_tables db' n = db_tables db n)"
proof -
  obtain ts where ts: "db_tables db ''search_tasks'' = Some ts" "t_def ts = search_tasks"
    using td by (auto simp: table_def_of_def)
  have known: "known_columns (t_def ts) [''task_id'']"
    using ts(2) by (simp add: known_columns_def find_column_def search_tasks_def)
  let ?dead = "filter (matches ''task_id'' tid) (t_rows ts)"
  let ?tabs0 = "upd_rows (filter (\<lambda>r. \<not> matches ''task_id'' tid r)) ''search_tasks'' (db_tables db)"
  let ?tabs = "upd_rows (filter (\<lambda>r. \<not> refers (constraints ! 4) ?dead r)) ''ai_analysis''
           (upd_rows (filter (\<lambda>r. \<not> refers (constraints ! 2) ?dead r)) ''channel_video_stats''
             (upd_rows (map (set_null (constraints ! 0) ?dead)) ''search_tasks'' ?tabs0))"
  have run: "exec now (DELETE ''search_tasks'' ''task_id'' tid) db = Inr (db\<lparr>db_tables := ?tabs\<rparr>)"
    using delete_rows_run[OF ts(1) known, of tid ?tabs now] cascade_constraints_task fks by simp
  have ex: "list_ex (\<lambda>d. d ''task_id'' = tid) (t_rows ts)"
    using tid(2) ts(1) by (simp add: rows_of_def)
  have ref: "refers (constraints ! i) ?dead r = (r (fk_column (constraints ! i)) = tid)"
    if "fk_ref_column (constraints ! i) = ''task_id''" for i r
    using refers_matches[OF tid(1) ex that] .
  have m: "matches ''task_id'' tid r = (r ''task_id'' = tid)" for r
    using tid(1) by (simp add: matches_def)
  have sn: "set_null (constraints ! 0) ?dead = (\<lambda>r. if r ''parent_task_id'' = tid then r(''parent_task_id'' := VNull) else r)"
    by (rule ext) (simp add: set_null_def ref fk_columns)
  have r1: "rows_of (db\<lparr>db_tables := ?tabs\<rparr>) ''search_tasks'' =
      map (\<lambda>r. if r ''parent_task_id'' = tid then r(''parent_task_id'' := VNull) else r)
        (filter (\<lambda>r. r ''task_id'' \<noteq> tid) (rows_of db ''search_tasks''))"
    by (simp add: rows_of_tab_rows tab_rows_upd_rows sn m)
  have r2: "rows_of (db\<lparr>db_tables := ?tabs\<rparr>) ''channel_video_stats'' =
      filter (\<lambda>r. r ''task_id'' \<noteq> tid) (rows_of db ''channel_video_stats'')"
    by (simp add: rows_of_tab_rows tab_rows_upd_rows ref fk_columns del: One_nat_def)
  have r3: "rows_of (db\<lparr>db_tables := ?tabs\<rparr>) ''ai_analysis'' =
      filter (\<lambda>r. r ''task_id'' \<noteq> tid) (rows_of db ''ai_analysis'')"
    by (simp add: rows_of_tab_rows tab_rows_upd_rows ref fk_columns del: One_nat_def)
  have r4: "db_tables (db\<lparr>db_tables := ?tabs\<rparr>) n = db_tables db n"
    if "n \<noteq> ''search_tasks'' \<and> n \<noteq> ''channel_video_stats'' \<and> n \<noteq> ''ai_analysis''" for n
    using that by (simp add: upd_rows_other)
  show ?thesis using run r1 r2 r3 r4 by blast
qed

lemma delete_channel:
  assumes fks: "db_fks db = constraints"
    and td: "table_def_of db ''channels'' = Some channels"
    and cid: "cid \<noteq> VNull" "list_ex (\<lambda>r. r ''channel_id'' = cid) (rows_of db ''channels'')"
  shows "\<exists>db'. exec now (DELETE ''channels'' ''channel_id'' cid) db = Inr db'
       \<and> rows_of db' ''channels'' = filter (\<lambda>r. r ''channel_id'' \<noteq> cid) (rows_of db ''channels'')
       \<and> rows_of db' ''channel_video_stats'' =
           filter (\<lambda>r. r ''channel_id'' \<noteq> cid) (rows_of db ''channel_video_stats'')
       \<and> rows_of db' ''ai_analysis'' =
           filter (\<lambda>r. r ''channel_id'' \<noteq> cid) (rows_of db ''ai_analysis'')
       \<and> (\<forall>n. n \<noteq> ''channels'' \<and> n \<noteq> ''channel_video_stats'' \<and> n \<noteq> ''ai_analysis''
              \<longrightarrow> db_tables db' n = db_tables db n)"
proof -
  obtain tc where tc: "db_tables db ''channels'' = Some tc" "t_def tc = channels"
    using td by (auto simp: table_def_of_def)
  have known: "known_columns (t_def tc) [''channel_id'']"
    using tc(2) by (simp add: known_columns_def find_column_def channels_def)
  let ?dead = "filter (matches ''channel_id'' cid) (t_rows tc)"
  let ?tabs0 = "upd_rows (filter (\<lambda>r. \<not> matches ''channel_id'' cid r)) ''channels'' (db_tables db)"
  let ?tabs = "upd_rows (filter (\<lambda>r. \<not> refers (constraints ! 3) ?dead r)) ''ai_analysis''
           (upd_rows (filter (\<lambda>r. \<not> refers (constraints ! 1) ?dead r)) ''channel_video_stats'' ?tabs0)"
  have run: "exec now (DELETE ''channels'' ''channel_id'' cid) db = Inr (db\<lparr>db_tables := ?tabs\<rparr>)"
    using delete_rows_run[OF tc(1) known, of cid ?tabs now] cascade_constraints_channel fks by simp
  have ex: "list_ex (\<lambda>d. d ''channel_id'' = cid) (t_rows tc)"
    using cid(2) tc(1) by (simp add: rows_of_def)
  have ref: "refers (constraints ! i) ?dead r = (r (fk_column (constraints ! i)) = cid)"
    if "fk_ref_column (constraints ! i) = ''channel_id''" for i r
    using refers_matches[OF cid(1) ex that] .
  have m: "matches ''channel_id'' cid r = (r ''channel_id'' = cid)" for r
    using cid(1) by (simp add: matches_def)
  have r1: "rows_of (db\<lparr>db_tables := ?tabs\<rparr>) ''channels'' =
      filter (\<lambda>r. r ''channel_id'' \<noteq> cid) (rows_of db ''channels'')"
    by (simp add: rows_of_tab_rows tab_rows_upd_rows m)
  have r2: "rows_of (db\<lparr>db_tables := ?tabs\<rparr>) ''channel_video_stats'' =
      filter (\<lambda>r. r ''channel_id'' \<noteq> cid) (rows_of db ''channel_video_stats'')"
    by (simp add: rows_of_tab_rows tab_rows_upd_rows ref fk_columns del: One_nat_def)
  have r3: "rows_of (db\<lparr>db_tables := ?tabs\<rparr>) ''ai_analysis'' =
      filter (\<lambda>r. r ''channel_id'' \<noteq> cid) (rows_of db ''ai_analysis'')"
    by (simp add: rows_of_tab_rows tab_rows_upd_rows ref fk_columns del: One_nat_def)
  have r4: "db_tables (db\<lparr>db_tables := ?tabs\<rparr>) n = db_tables db n"
    if "n \<noteq> ''channels'' \<and> n \<noteq> ''channel_video_stats'' \<and> n \<noteq> ''ai_analysis''" for n
    using that by (simp add: upd_rows_other)
  show ?thesis using run r1 r2 r3 r4 by blast
qed

text \<open>
  C4. In a database that holds the five foreign keys of the script, deleting a search
  task leaves each remaining task that named it as its parent with \<open>parent_task_id\<close>
  \<open>NULL\<close> and every other column as it was, leaves all other tasks as they were, and
  deletes the snapshots and analyses of the task. Deleting a channel deletes its
  snapshots and analyses, those and no others, and changes no other table. The rows
  that stay keep their order.
\<close>

theorem delete_follows_foreign_keys:
  assumes "db_fks db = constraints"
    and "table_def_of db ''search_tasks'' = Some search_tasks"
    and "table_def_of db ''channels'' = Some channels"
  shows "(tid \<noteq> VNull \<and> list_ex (\<lambda>r. r ''task_id'' = tid) (rows_of db ''search_tasks'')
          \<longrightarrow> (\<exists>db'. exec now (DELETE ''search_tasks'' ''task_id'' tid) db = Inr db'
                \<and> rows_of db' ''search_tasks'' =
                    map (\<lambda>r. if r ''parent_task_id'' = tid
                              then r(''parent_task_id'' := VNull) else r)
                      (filter (\<lambda>r. r ''task_id'' \<noteq> tid) (rows_of db ''search_tasks''))
                \<and> rows_of db' ''channel_video_stats'' =
                    filter (\<lambda>r. r ''task_id'' \<noteq> tid) (rows_of db ''channel_video_stats'')
                \<and> rows_of db' ''ai_analysis'' =
                    filter (\<lambda>r. r ''task_id'' \<noteq> tid) (rows_of db ''ai_analysis'')
                \<and> (\<forall>n. n \<noteq> ''search_tasks'' \<and> n \<noteq> ''channel_video_stats'' \<and> n \<noteq> ''ai_analysis''
                       \<longrightarrow> db_tables db' n = db_tables db n)))
       \<and> (cid \<noteq> VNull \<and> list_ex (\<lambda>r. r ''channel_id'' = cid) (rows_of db ''channels'')
          \<longrightarrow> (\<exists>db'. exec now (DELETE ''channels'' ''channel_id'' cid) db = Inr db'
                \<and> rows_of db' ''channels'' =
                    filter (\<lambda>r. r ''channel_id'' \<noteq> cid) (rows_of db ''channels'')
                \<and> rows_of db' ''channel_video_stats'' =
                    filter (\<lambda>r. r ''channel_id'' \<noteq> cid) (rows_of db ''channel_video_stats'')
                \<and> rows_of db' ''ai_analysis'' =
                    filter (\<lambda>r. r ''channel_id'' \<noteq> cid) (rows_of db ''ai_analysis'')
                \<and> (\<forall>n. n \<noteq> ''channels'' \<and> n \<noteq> ''channel_video_stats'' \<and> n \<noteq> ''ai_analysis''
                       \<longrightarrow> db_tables db' n = db_tables db n)))"
  using delete_task[OF assms(1,2), of tid now] delete_channel[OF assms(1,3), of cid now]
  by blast

text \<open>
  The theorem on the sample database: task \<open>task-a\<close> is the parent of \<open>task-b\<close>
  and has one snapshot; channel \<open>UC1\<close> has one snapshot and one analysis.
\<close>

theorem delete_follows_foreign_keys_witness:
  "(\<exists>db'. exec 9 (DELETE ''search_tasks'' ''task_id'' (VStr ''task-a'')) sample_database = Inr db'
       \<and> rows_of db' ''search_tasks'' =
           map (\<lambda>r. if r ''parent_task_id'' = VStr ''task-a''
                     then r(''parent_task_id'' := VNull) else r)
             (filter (\<lambda>r. r ''task_id'' \<noteq> VStr ''task-a'') (rows_of sample_database ''search_tasks''))
       \<and> rows_of db' ''channel_video_stats'' =
           filter (\<lambda>r. r ''task_id'' \<noteq> VStr ''task-a'') (rows_of sample_database ''channel_video_stats'')
       \<and> rows_of db' ''ai_analysis'' =
           filter (\<lambda>r. r ''task_id'' \<noteq> VStr ''task-a'') (rows_of sample_database ''ai_analysis'')
       \<and> db_tables db' ''channels'' = db_tables sample_database ''channels'')
   \<and> (\<exists>db'. exec 9 (DELETE ''channels'' ''channel_id'' (VStr ''UC1'')) sample_database = Inr db'
       \<and> rows_of db' ''channels'' =
           filter (\<lambda>r. r ''channel_id'' \<noteq> VStr ''UC1'') (rows_of sample_database ''channels'')
       \<and> rows_of db' ''channel_video_stats'' =
           filter (\<lambda>r. r ''channel_id'' \<noteq> VStr ''UC1'') (rows_of sample_database ''channel_video_stats'')
       \<and> rows_of db' ''ai_analysis'' =
           filter (\<lambda>r. r ''channel_id'' \<noteq> VStr ''UC1'') (rows_of sample_database ''ai_analysis'')
       \<and> db_tables db' ''search_tasks'' = db_tables sample_database ''search_tasks'')
   \<and> map (\<lambda>r. (r ''task_id'', r ''parent_task_id'')) (rows_of sample_database ''search_tasks'')
       = [(VStr ''task-a'', VNull), (VStr ''task-b'', VStr ''task-a'')]"
proof -
  note inst = delete_follows_foreign_keys[OF sample_database_rows(1) sample_database_defs(2,3),
      of "VStr ''task-a''" 9 "VStr ''UC1''"]
  have seen: "VStr ''task-a'' \<noteq> VNull
       \<and> list_ex (\<lambda>r. r ''task_id'' = VStr ''task-a'') (rows_of sample_database ''search_tasks'')"
      "VStr ''UC1'' \<noteq> VNull
       \<and> list_ex (\<lambda>r. r ''channel_id'' = VStr ''UC1'') (rows_of sample_database ''channels'')"
    using sample_database_parents by simp_all
  from inst seen(1) have a: "\<exists>db'. exec 9 (DELETE ''search_tasks'' ''task_id'' (VStr ''task-a'')) sample_database = Inr db'
       \<and> rows_of db' ''search_tasks'' =
           map (\<lambda>r. if r ''parent_task_id'' = VStr ''task-a''
                     then r(''parent_task_id'' := VNull) else r)
             (filter (\<lambda>r. r ''task_id'' \<noteq> VStr ''task-a'') (rows_of sample_database ''search_tasks''))
       \<and> rows_of db' ''channel_video_stats'' =
           filter (\<lambda>r. r ''task_id'' \<noteq> VStr ''task-a'') (rows_of sample_database ''channel_video_stats'')
       \<and> rows_of db' ''ai_analysis'' =
           filter (\<lambda>r. r ''task_id'' \<noteq> VStr ''task-a'') (rows_of sample_database ''ai_analysis'')
       \<and> (\<forall>n. n \<noteq> ''search_tasks'' \<and> n \<noteq> ''channel_video_stats'' \<and> n \<noteq> ''ai_analysis''
              \<longrightarrow> db_tables db' n = db_tables sample_database n)"
    by (rule conjunct1[THEN mp])
  from inst seen(2) have b: "\<exists>db'. exec 9 (DELETE ''channels'' ''channel_id'' (VStr ''UC1'')) sample_database = Inr db'
       \<and> rows_of db' ''channels'' =
           filter (\<lambda>r. r ''channel_id'' \<noteq> VStr ''UC1'') (rows_of sample_database ''channels'')
       \<and> rows_of db' ''channel_video_stats'' =
           filter (\<lambda>r. r ''channel_id'' \<noteq> VStr ''UC1'') (rows_of sample_database ''channel_video_stats'')
       \<and> rows_of db' ''ai_analysis'' =
           filter (\<lambda>r. r ''channel_id'' \<noteq> VStr ''UC1'') (rows_of sample_database ''ai_analysis'')
       \<and> (\<forall>n. n \<noteq> ''channels'' \<and> n \<noteq> ''channel_video_stats'' \<and> n \<noteq> ''ai_analysis''
              \<longrightarrow> db_tables db' n = db_tables sample_database n)"
    by (rule conjunct2[THEN mp])
  from a obtain db1 where 1: "exec 9 (DELETE ''search_tasks'' ''task_id'' (VStr ''task-a'')) sample_database = Inr db1"
       "rows_of db1 ''search_tasks'' =
           map (\<lambda>r. if r ''parent_task_id'' = VStr ''task-a''
                     then r(''parent_task_id'' := VNull) else r)
             (filter (\<lambda>r. r ''task_id'' \<noteq> VStr ''task-a'') (rows_of sample_database ''search_tasks''))"
       "rows_of db1 ''channel_video_stats'' =
           filter (\<lambda>r. r ''task_id'' \<noteq> VStr ''task-a'') (rows_of sample_database ''channel_video_stats'')"
       "rows_of db1 ''ai_analysis'' =
           filter (\<lambda>r. r ''task_id'' \<noteq> VStr ''task-a'') (rows_of sample_database ''ai_analysis'')"
       "\<forall>n. n \<noteq> ''search_tasks'' \<and> n \<noteq> ''channel_video_stats'' \<and> n \<noteq> ''ai_analysis''
              \<longrightarrow> db_tables db1 n = db_tables sample_database n"
    by blast
  from b obtain db2 where 2: "exec 9 (DELETE ''channels'' ''channel_id'' (VStr ''UC1'')) sample_database = Inr db2"
       "rows_of db2 ''channels'' =
           filter (\<lambda>r. r ''channel_id'' \<noteq> VStr ''UC1'') (rows_of sample_database ''channels'')"
       "rows_of db2 ''channel_video_stats'' =
           filter (\<lambda>r. r ''channel_id'' \<noteq> VStr ''UC1'') (rows_of sample_database ''channel_video_stats'')"
       "rows_of db2 ''ai_analysis'' =
           filter (\<lambda>r. r ''channel_id'' \<noteq> VStr ''UC1'') (rows_of sample_database ''ai_analysis'')"
       "\<forall>n. n \<noteq> ''channels'' \<and> n \<noteq> ''channel_video_stats'' \<and> n \<noteq> ''ai_analysis''
              \<longrightarrow> db_tables db2 n = db_tables sample_database n"
    by blast
  have o1: "db_tables db1 ''channels'' = db_tables sample_database ''channels''"
    using 1(5) by simp
  have o2: "db_tables db2 ''search_tasks'' = db_tables sample_database ''search_tasks''"
    using 2(5) by simp
  show ?thesis using 1(1-4) o1 2(1-4) o2 sample_database_rows(2) by blast
qed

section \<open>Enum value sets\<close>

text \<open>
  C6. In the database the script creates, the three status columns list exactly the
  values of the data model: task status is pending, running, completed, failed,
  paused; channel status is active, disappeared, deleted, private; analysis status is
  pending, processing, completed, failed. Each list is free of repetitions, so the
  value set has neither an extra nor a missing member.
\<close>

theorem status_enum_value_sets:
  "map_option set (Option.bind (table_def_of bootstrapped ''search_tasks'')
                     (\<lambda>td. enum_values td ''status'')) =
     Some {''pending'', ''running'', ''completed'', ''failed'', ''paused''}
   \<and> map_option set (Option.bind (table_def_of bootstrapped ''channels'')
                       (\<lambda>td. enum_values td ''status'')) =
     Some {''active'', ''disappeared'', ''deleted'', ''private''}
   \<and> map_option set (Option.bind (table_def_of bootstrapped ''ai_analysis'')
                       (\<lambda>td. enum_values td ''analysis_status'')) =
     Some {''pending'', ''processing'', ''completed'', ''failed''}
   \<and> map_option distinct (Option.bind (table_def_of bootstrapped ''search_tasks'')
                            (\<lambda>td. enum_values td ''status'')) = Some True
   \<and> map_option distinct (Option.bind (table_def_of bootstrapped ''channels'')
                            (\<lambda>td. enum_values td ''status'')) = Some True
   \<and> map_option distinct (Option.bind (table_def_of bootstrapped ''ai_analysis'')
                            (\<lambda>td. enum_values td ''analysis_status'')) = Some True"
  by (simp add: bootstrapped_defs enum_values_def find_column_def
      search_tasks_def channels_def ai_analysis_def)

end
